theory Spec2Isabelle
  imports Main "HOL-Library.AList"
begin

section \<open>Data model (src/db/schema.ts)\<close>

text \<open>
  \<^verbatim>\<open>TaskType\<close> is a union of string literals; at run time a task type is a string, and
  \<^verbatim>\<open>getPlanTemplate\<close> has a \<^verbatim>\<open>default\<close> branch for every other string. It is modelled as
  \<open>string\<close>. \<^verbatim>\<open>TaskStatus\<close> and \<^verbatim>\<open>PlanStatus\<close> are the same four literals.
\<close>

type_synonym task_type = string

datatype task_status = pending | running | completed | failed

type_synonym plan_status = task_status

text \<open>
  Values of type \<^verbatim>\<open>unknown\<close> (parameter values, executor results) are opaque: a type
  variable \<open>'v\<close>. A parameter value is a string the orchestrator wrote itself or an
  opaque value copied from the intent. A step result is the object
  \<^verbatim>\<open>{ error: message }\<close> or the value the executor returned.
\<close>

datatype 'v param_value = param_string string | param_opaque 'v

datatype 'v step_result = error_result string | value_result 'v

text \<open>
  A JavaScript \<^verbatim>\<open>Map\<close> keeps its keys in insertion order; \<^verbatim>\<open>set\<close> on a present key
  replaces the value in place and on a new key appends. That is \<open>AList.update\<close> on an
  association list; \<^verbatim>\<open>get\<close> is \<open>map_of\<close>.
\<close>

type_synonym ('k, 'w) js_map = "('k \<times> 'w) list"

definition map_set :: "'k \<Rightarrow> 'w \<Rightarrow> ('k, 'w) js_map \<Rightarrow> ('k, 'w) js_map" where
  "map_set k w m = AList.update k w m"

definition map_get :: "('k, 'w) js_map \<Rightarrow> 'k \<Rightarrow> 'w option" where
  "map_get m k = map_of m k"

definition map_has :: "('k, 'w) js_map \<Rightarrow> 'k \<Rightarrow> bool" where
  "map_has m k = (map_of m k \<noteq> None)"

record 'v task_step =
  step_id :: string
  step_type :: task_type
  dependencies :: "string list"
  parameters :: "(string, 'v param_value) js_map"
  status :: task_status
  result :: "'v step_result option"

record 'v execution_plan =
  plan_id :: string
  plan_steps :: "'v task_step list"
  plan_status :: plan_status
  createdAt :: int

text \<open>
  The errors the module throws. \<open>JsTypeError\<close> stands for the \<^verbatim>\<open>TypeError\<close> the runtime
  raises when a property of \<^verbatim>\<open>undefined\<close> is read after a non-null assertion
  (\<^verbatim>\<open>adjacency.get(depId)!\<close>, \<^verbatim>\<open>stepMap.get(stepId)!\<close>).
\<close>

datatype error =
    DependencyNotFound string
  | CircularDependency
  | PlanNotFound string
  | JsTypeError

fun error_message :: "error \<Rightarrow> string" where
  "error_message (DependencyNotFound depId) =
     ''Dependency step \"'' @ depId @ ''\" not found in plan''"
| "error_message CircularDependency = ''Circular dependency detected in execution plan''"
| "error_message (PlanNotFound planId) = ''Plan \"'' @ planId @ ''\" not found''"
| "error_message JsTypeError = ''TypeError''"

section \<open>Topological layering (topologicalSort)\<close>

text \<open>A loop whose body may throw: the first error ends the loop.\<close>

fun fold_err :: "('a \<Rightarrow> 's \<Rightarrow> error + 's) \<Rightarrow> 'a list \<Rightarrow> 's \<Rightarrow> error + 's" where
  "fold_err f [] s = Inr s"
| "fold_err f (x # xs) s = (case f x s of Inl e \<Rightarrow> Inl e | Inr s' \<Rightarrow> fold_err f xs s')"

text \<open>
  The three maps of \<^verbatim>\<open>topologicalSort\<close>: \<^verbatim>\<open>stepMap\<close>, \<^verbatim>\<open>inDegree\<close>, \<^verbatim>\<open>adjacency\<close>.
  In-degrees are JavaScript numbers that the loop decrements: \<open>int\<close>.
\<close>

type_synonym 'v sort_maps =
  "(string, 'v task_step) js_map \<times> (string, int) js_map \<times> (string, string list) js_map"

definition init_step :: "'v task_step \<Rightarrow> 'v sort_maps \<Rightarrow> 'v sort_maps" where
  "init_step step = (\<lambda>(stepMap, inDegree, adjacency).
     (map_set (step_id step) step stepMap,
      map_set (step_id step) 0 inDegree,
      map_set (step_id step) [] adjacency))"

definition init_maps :: "'v task_step list \<Rightarrow> 'v sort_maps" where
  "init_maps steps = fold init_step steps ([], [], [])"

text \<open>
  One dependency edge: \<^verbatim>\<open>adj.push(step.id)\<close> mutates the array stored under \<^verbatim>\<open>depId\<close>,
  and the in-degree of \<^verbatim>\<open>step.id\<close> grows by one (\<^verbatim>\<open>?? 0\<close> when absent).
\<close>

definition add_edge ::
  "string \<Rightarrow> string \<Rightarrow> 'v sort_maps \<Rightarrow> error + 'v sort_maps" where
  "add_edge sid depId = (\<lambda>(stepMap, inDegree, adjacency).
     if \<not> map_has stepMap depId then Inl (DependencyNotFound depId)
     else (case map_get adjacency depId of
             None \<Rightarrow> Inl JsTypeError
           | Some adj \<Rightarrow>
               Inr (stepMap,
                    map_set sid ((case map_get inDegree sid of None \<Rightarrow> 0 | Some d \<Rightarrow> d) + 1)
                      inDegree,
                    map_set depId (adj @ [sid]) adjacency)))"

definition add_step_edges :: "'v task_step \<Rightarrow> 'v sort_maps \<Rightarrow> error + 'v sort_maps" where
  "add_step_edges step = fold_err (add_edge (step_id step)) (dependencies step)"

definition build_graph :: "'v task_step list \<Rightarrow> error + 'v sort_maps" where
  "build_graph steps = fold_err add_step_edges steps (init_maps steps)"

text \<open>The ids of in-degree 0, in the iteration order of the \<^verbatim>\<open>inDegree\<close> map.\<close>

definition zero_degree_ids :: "(string, int) js_map \<Rightarrow> string list" where
  "zero_degree_ids inDegree = map fst (filter (\<lambda>(sid, degree). degree = 0) inDegree)"

text \<open>
  The body of the inner loop over the successors of a node:
  \<^verbatim>\<open>newDegree = (inDegree.get(succId) ?? 1) - 1\<close>, stored, and the successor is pushed on
  \<^verbatim>\<open>nextQueue\<close> when the new degree is exactly 0.
\<close>

definition relax ::
  "string \<Rightarrow> (string, int) js_map \<times> string list \<Rightarrow> (string, int) js_map \<times> string list" where
  "relax succId = (\<lambda>(inDegree, nextQueue).
     let newDegree = (case map_get inDegree succId of None \<Rightarrow> 1 | Some d \<Rightarrow> d) - 1;
         inDegree' = map_set succId newDegree inDegree
     in (inDegree', if newDegree = 0 then nextQueue @ [succId] else nextQueue))"

definition successors :: "(string, string list) js_map \<Rightarrow> string \<Rightarrow> string list" where
  "successors adjacency nodeId = (case map_get adjacency nodeId of None \<Rightarrow> [] | Some ss \<Rightarrow> ss)"

definition visit ::
  "(string, string list) js_map \<Rightarrow> string \<Rightarrow>
   (string, int) js_map \<times> string list \<Rightarrow> (string, int) js_map \<times> string list" where
  "visit adjacency nodeId = fold relax (successors adjacency nodeId)"

text \<open>
  The measure of the \<^verbatim>\<open>while\<close> loop: the successor ids whose in-degree is still
  positive (an absent id counts as 1, as \<^verbatim>\<open>?? 1\<close> reads it).
\<close>

definition degree_of :: "(string, int) js_map \<Rightarrow> string \<Rightarrow> int" where
  "degree_of inDegree sid = (case map_get inDegree sid of None \<Rightarrow> 1 | Some d \<Rightarrow> d)"

definition all_successors :: "(string, string list) js_map \<Rightarrow> string set" where
  "all_successors adjacency = (\<Union>p \<in> set adjacency. set (snd p))"

definition open_count :: "(string, string list) js_map \<Rightarrow> (string, int) js_map \<Rightarrow> nat" where
  "open_count adjacency inDegree =
     card {sid \<in> all_successors adjacency. 0 < degree_of inDegree sid}"

lemma degree_of_relax:
  "degree_of (fst (relax x (deg, nq))) y
     = (if y = x then degree_of deg x - 1 else degree_of deg y)"
  by (simp add: relax_def degree_of_def map_get_def map_set_def Let_def update_conv')

lemma finite_all_successors [simp]: "finite (all_successors adj)"
  by (simp add: all_successors_def)

lemma relax_open_count:
  assumes "x \<in> all_successors adj"
  shows "open_count adj (fst (relax x (deg, nq))) + length (snd (relax x (deg, nq)))
           = open_count adj deg + length nq"
proof -
  let ?S = "all_successors adj"
  let ?deg' = "fst (relax x (deg, nq))"
  have new: "\<And>y. degree_of ?deg' y = (if y = x then degree_of deg x - 1 else degree_of deg y)"
    by (rule degree_of_relax)
  have nq': "snd (relax x (deg, nq)) = (if degree_of deg x = 1 then nq @ [x] else nq)"
    by (simp add: relax_def degree_of_def Let_def)
  show ?thesis
  proof (cases "degree_of deg x = 1")
    case True
    have "{sid \<in> ?S. 0 < degree_of ?deg' sid} = {sid \<in> ?S. 0 < degree_of deg sid} - {x}"
      using True by (auto simp: new)
    moreover have "x \<in> {sid \<in> ?S. 0 < degree_of deg sid}"
      using True assms by simp
    moreover have "finite {sid \<in> ?S. 0 < degree_of deg sid}"
      by simp
    ultimately have "open_count adj ?deg' + 1 = open_count adj deg"
      unfolding open_count_def
      by (metis (no_types, lifting) Suc_eq_plus1 card_Suc_Diff1)
    then show ?thesis using True by (simp add: nq')
  next
    case False
    have "{sid \<in> ?S. 0 < degree_of ?deg' sid} = {sid \<in> ?S. 0 < degree_of deg sid}"
      using False by (auto simp: new)
    then show ?thesis using False by (simp add: nq' open_count_def)
  qed
qed

lemma fold_relax_open_count:
  "set ss \<subseteq> all_successors adj \<Longrightarrow>
   open_count adj (fst (fold relax ss st)) + length (snd (fold relax ss st))
     = open_count adj (fst st) + length (snd st)"
proof (induction ss arbitrary: st)
  case Nil
  then show ?case by simp
next
  case (Cons x ss)
  obtain deg nq where st: "st = (deg, nq)" by (cases st)
  from Cons.prems have x: "x \<in> all_successors adj" and ss: "set ss \<subseteq> all_successors adj"
    by simp_all
  show ?case
    using Cons.IH [OF ss, of "relax x (deg, nq)"] relax_open_count [OF x, of deg nq]
    by (simp add: st)
qed

lemma successors_subset: "set (successors adj n) \<subseteq> all_successors adj"
proof (cases "map_of adj n")
  case None
  then show ?thesis by (simp add: successors_def map_get_def)
next
  case (Some ss)
  then have "(n, ss) \<in> set adj" by (rule map_of_SomeD)
  then have "set ss \<subseteq> all_successors adj"
    by (force simp: all_successors_def)
  then show ?thesis using Some by (simp add: successors_def map_get_def)
qed

lemma fold_visit_open_count:
  "open_count adj (fst (fold (visit adj) queue st)) + length (snd (fold (visit adj) queue st))
     = open_count adj (fst st) + length (snd st)"
proof (induction queue arbitrary: st)
  case Nil
  then show ?case by simp
next
  case (Cons n queue)
  show ?case
    using Cons.IH [of "visit adj n st"]
          fold_relax_open_count [OF successors_subset, of adj n st]
    by (simp add: visit_def)
qed

text \<open>
  The \<^verbatim>\<open>while (queue.length > 0)\<close> loop: the queue becomes a layer, its successors are
  relaxed, and the loop goes on with \<^verbatim>\<open>nextQueue\<close>.
\<close>

function bfs_layers ::
  "(string, string list) js_map \<Rightarrow> (string, int) js_map \<Rightarrow> string list \<Rightarrow>
   string list list \<Rightarrow> nat \<Rightarrow> string list list \<times> nat" where
  "bfs_layers adjacency inDegree queue layers processedCount =
     (if queue = [] then (layers, processedCount)
      else
        let (inDegree', nextQueue) = fold (visit adjacency) queue (inDegree, [])
        in bfs_layers adjacency inDegree' nextQueue (layers @ [queue])
             (processedCount + length queue))"
  by pat_completeness auto
termination
proof (relation "measure (\<lambda>(adj, deg, queue, layers, n).
                   open_count adj deg + (if queue = [] then 0 else 1))", goal_cases)
  case 1
  then show ?case by simp
next
  case (2 adjacency inDegree queue layers processedCount x inDegree' nextQueue)
  from 2(2,3) have run: "fold (visit adjacency) queue (inDegree, []) = (inDegree', nextQueue)"
    by simp
  have "open_count adjacency inDegree' + length nextQueue = open_count adjacency inDegree"
    using fold_visit_open_count [of adjacency queue "(inDegree, [])"] by (simp add: run)
  then show ?case using 2(1) by (cases nextQueue) auto
qed

declare bfs_layers.simps [simp del]

definition topologicalSort :: "'v task_step list \<Rightarrow> error + string list list" where
  "topologicalSort steps =
     (case build_graph steps of
        Inl e \<Rightarrow> Inl e
      | Inr (stepMap, inDegree, adjacency) \<Rightarrow>
          let queue = zero_degree_ids inDegree;
              (layers, processedCount) = bfs_layers adjacency inDegree queue [] 0
          in if processedCount \<noteq> length steps then Inl CircularDependency
             else Inr layers)"

lemma relax_snd:
  "snd (relax x (deg, nq)) = (if degree_of deg x = 1 then nq @ [x] else nq)"
  by (simp add: relax_def degree_of_def Let_def)

lemma fold_relax_spec:
  assumes "distinct nq" and "\<forall>y \<in> set nq. degree_of deg y \<le> 0"
  shows "(\<forall>x. degree_of (fst (fold relax ss (deg, nq))) x
               = degree_of deg x - int (count_list ss x))
       \<and> distinct (snd (fold relax ss (deg, nq)))
       \<and> (\<forall>y \<in> set (snd (fold relax ss (deg, nq))).
             degree_of (fst (fold relax ss (deg, nq))) y \<le> 0)
       \<and> set (snd (fold relax ss (deg, nq)))
           = set nq \<union> {x \<in> set ss. 0 < degree_of deg x
                                  \<and> degree_of deg x \<le> int (count_list ss x)}"
  using assms
proof (induction ss arbitrary: deg nq)
  case Nil
  then show ?case by simp
next
  case (Cons a ss)
  let ?deg1 = "fst (relax a (deg, nq))"
  let ?nq1 = "snd (relax a (deg, nq))"
  have d1: "\<And>y. degree_of ?deg1 y = (if y = a then degree_of deg a - 1 else degree_of deg y)"
    by (rule degree_of_relax)
  have n1: "?nq1 = (if degree_of deg a = 1 then nq @ [a] else nq)"
    by (rule relax_snd)
  have a_notin: "degree_of deg a = 1 \<Longrightarrow> a \<notin> set nq"
    using Cons.prems(2) by force
  have dist1: "distinct ?nq1"
    using Cons.prems(1) a_notin by (simp add: n1)
  have le1: "\<forall>y \<in> set ?nq1. degree_of ?deg1 y \<le> 0"
    using Cons.prems(2) by (auto simp: n1 d1)
  note IH = Cons.IH [OF dist1 le1]
  have unfold: "fold relax (a # ss) (deg, nq) = fold relax ss (?deg1, ?nq1)"
    by simp
  have c1: "\<forall>x. degree_of (fst (fold relax ss (?deg1, ?nq1))) x
               = degree_of deg x - int (count_list (a # ss) x)"
    using IH by (simp add: d1)
  have c4: "set (snd (fold relax ss (?deg1, ?nq1)))
           = set nq \<union> {x \<in> set (a # ss). 0 < degree_of deg x
                                  \<and> degree_of deg x \<le> int (count_list (a # ss) x)}"
  proof -
    have "set (snd (fold relax ss (?deg1, ?nq1)))
        = set ?nq1 \<union> {x \<in> set ss. 0 < degree_of ?deg1 x
                                  \<and> degree_of ?deg1 x \<le> int (count_list ss x)}"
      using IH by blast
    also have "\<dots> = set nq \<union> {x \<in> set (a # ss). 0 < degree_of deg x
                                  \<and> degree_of deg x \<le> int (count_list (a # ss) x)}"
    proof (rule set_eqI)
      fix x
      show "x \<in> set ?nq1 \<union> {x \<in> set ss. 0 < degree_of ?deg1 x
                                  \<and> degree_of ?deg1 x \<le> int (count_list ss x)}
         \<longleftrightarrow> x \<in> set nq \<union> {x \<in> set (a # ss). 0 < degree_of deg x
                                  \<and> degree_of deg x \<le> int (count_list (a # ss) x)}"
      proof (cases "x = a")
        case False
        then show ?thesis by (auto simp: n1 d1)
      next
        case True
        have pos: "0 < count_list ss a \<Longrightarrow> a \<in> set ss"
          by (metis count_notin less_numeral_extra(3))
        show ?thesis
          using pos by (auto simp: True n1 d1)
      qed
    qed
    finally show ?thesis .
  qed
  show ?case
    unfolding unfold using c1 c4 IH by blast
qed

section \<open>The dependency graph of a step list\<close>

text \<open>
  The edges \<open>(d, x)\<close>: the step with id \<open>x\<close> lists \<open>d\<close> among its dependencies, once
  per occurrence, in the order the code meets them.
\<close>

definition dep_edges :: "'v task_step list \<Rightarrow> (string \<times> string) list" where
  "dep_edges steps =
     concat (map (\<lambda>step. map (\<lambda>depId. (depId, step_id step)) (dependencies step)) steps)"

definition step_ids :: "'v task_step list \<Rightarrow> string list" where
  "step_ids steps = map step_id steps"

definition deps_resolve :: "'v task_step list \<Rightarrow> bool" where
  "deps_resolve steps =
     (\<forall>step \<in> set steps. \<forall>depId \<in> set (dependencies step). depId \<in> set (step_ids steps))"

definition deps_acyclic :: "'v task_step list \<Rightarrow> bool" where
  "deps_acyclic steps = acyclic (set (dep_edges steps))"

text \<open>The in-edges of \<open>x\<close> that come from outside \<open>D\<close>.\<close>

definition open_edges :: "(string \<times> string) list \<Rightarrow> string set \<Rightarrow> string \<Rightarrow> nat" where
  "open_edges E D x = length (filter (\<lambda>e. snd e = x \<and> fst e \<notin> D) E)"

lemma set_dep_edges:
  "set (dep_edges steps) = {(d, x). \<exists>step \<in> set steps. x = step_id step \<and> d \<in> set (dependencies step)}"
  by (auto simp: dep_edges_def)

lemma length_filter_disj:
  "(\<And>e. e \<in> set xs \<Longrightarrow> \<not> (P e \<and> Q e)) \<Longrightarrow>
   length (filter P xs) + length (filter Q xs) = length (filter (\<lambda>e. P e \<or> Q e) xs)"
  by (induction xs) auto

lemma count_list_concat_map:
  "count_list (concat (map f q)) x = sum_list (map (\<lambda>d. count_list (f d) x) q)"
  by (induction q) simp_all

lemma count_list_map_snd_filter:
  "count_list (map snd (filter (\<lambda>e. fst e = d) E)) x
     = length (filter (\<lambda>e. fst e = d \<and> snd e = x) E)"
  by (induction E) auto

lemma sum_edges_from_queue:
  "distinct q \<Longrightarrow>
   sum_list (map (\<lambda>d. length (filter (\<lambda>e. fst e = d \<and> snd e = x) E)) q)
     = length (filter (\<lambda>e. fst e \<in> set q \<and> snd e = x) E)"
proof (induction q)
  case Nil
  then show ?case by simp
next
  case (Cons d q)
  then have d: "d \<notin> set q" and dq: "distinct q" by simp_all
  have "length (filter (\<lambda>e. fst e = d \<and> snd e = x) E)
          + length (filter (\<lambda>e. fst e \<in> set q \<and> snd e = x) E)
        = length (filter (\<lambda>e. (fst e = d \<and> snd e = x) \<or> (fst e \<in> set q \<and> snd e = x)) E)"
    using d by (intro length_filter_disj) auto
  also have "\<dots> = length (filter (\<lambda>e. fst e \<in> set (d # q) \<and> snd e = x) E)"
    by (rule arg_cong [where f = length], rule filter_cong) auto
  finally show ?case using Cons.IH [OF dq] by simp
qed

text \<open>What one round of the loop subtracts from the in-degree of \<open>x\<close>.\<close>

lemma count_successors_of_queue:
  assumes adj: "\<And>d. successors adj d = map snd (filter (\<lambda>e. fst e = d) E)"
      and q: "distinct q"
  shows "count_list (concat (map (successors adj) q)) x
           = length (filter (\<lambda>e. fst e \<in> set q \<and> snd e = x) E)"
  by (simp add: count_list_concat_map adj count_list_map_snd_filter sum_edges_from_queue [OF q])

lemma open_edges_split:
  assumes "set q \<inter> D = {}"
  shows "open_edges E D x
           = open_edges E (D \<union> set q) x + length (filter (\<lambda>e. fst e \<in> set q \<and> snd e = x) E)"
proof -
  have "length (filter (\<lambda>e. snd e = x \<and> fst e \<notin> D \<union> set q) E)
          + length (filter (\<lambda>e. fst e \<in> set q \<and> snd e = x) E)
        = length (filter (\<lambda>e. (snd e = x \<and> fst e \<notin> D \<union> set q)
                               \<or> (fst e \<in> set q \<and> snd e = x)) E)"
    by (intro length_filter_disj) auto
  also have "\<dots> = length (filter (\<lambda>e. snd e = x \<and> fst e \<notin> D) E)"
    using assms by (intro arg_cong [where f = length] filter_cong) auto
  finally show ?thesis by (simp add: open_edges_def)
qed

lemma open_edges_zero_iff:
  "open_edges E D x = 0 \<longleftrightarrow> (\<forall>d. (d, x) \<in> set E \<longrightarrow> d \<in> D)"
  by (auto simp: open_edges_def filter_empty_conv)

lemma fold_visit_flat:
  "fold (visit adj) q st = fold relax (concat (map (successors adj) q)) st"
  by (induction q arbitrary: st) (simp_all add: visit_def)

text \<open>
  Layers are layered over a set \<open>D\<close> of ids already emitted when every in-edge of a
  layer's member starts in \<open>D\<close> or in an earlier layer.
\<close>

fun layered :: "(string \<times> string) list \<Rightarrow> string set \<Rightarrow> string list list \<Rightarrow> bool" where
  "layered E D [] = True"
| "layered E D (l # ls) =
     ((\<forall>x \<in> set l. \<forall>e \<in> set E. snd e = x \<longrightarrow> fst e \<in> D) \<and> layered E (D \<union> set l) ls)"

lemma layered_snoc:
  "layered E D (ls @ [l]) \<longleftrightarrow>
     layered E D ls \<and> (\<forall>x \<in> set l. \<forall>e \<in> set E. snd e = x \<longrightarrow> fst e \<in> D \<union> set (concat ls))"
  by (induction ls arbitrary: D) (auto simp: Un_assoc)

text \<open>The invariant of the \<^verbatim>\<open>while\<close> loop, at the loop test.\<close>

definition bfs_inv ::
  "(string \<times> string) list \<Rightarrow> string set \<Rightarrow> (string, int) js_map \<Rightarrow> string list \<Rightarrow>
   string list list \<Rightarrow> nat \<Rightarrow> bool" where
  "bfs_inv E K deg q layers n \<longleftrightarrow>
     distinct (concat layers @ q)
   \<and> (\<forall>x \<in> K. degree_of deg x = int (open_edges E (set (concat layers)) x))
   \<and> set (concat layers) \<union> set q = {x \<in> K. degree_of deg x = 0}
   \<and> n = length (concat layers)
   \<and> layered E {} layers
   \<and> [] \<notin> set layers"

definition bfs_post ::
  "(string \<times> string) list \<Rightarrow> string set \<Rightarrow> string list list \<Rightarrow> nat \<Rightarrow> bool" where
  "bfs_post E K layers n \<longleftrightarrow>
     n = length (concat layers)
   \<and> distinct (concat layers)
   \<and> set (concat layers) \<subseteq> K
   \<and> layered E {} layers
   \<and> [] \<notin> set layers
   \<and> (\<forall>x \<in> K - set (concat layers). \<exists>d. (d, x) \<in> set E \<and> d \<notin> set (concat layers))"

lemma bfs_inv_step:
  assumes adj: "\<And>d. successors adj d = map snd (filter (\<lambda>e. fst e = d) E)"
      and K: "snd ` set E \<subseteq> K"
      and inv: "bfs_inv E K deg q layers n"
      and q: "q \<noteq> []"
      and run: "fold (visit adj) q (deg, []) = (deg', nq)"
  shows "bfs_inv E K deg' nq (layers @ [q]) (n + length q)"
proof -
  let ?D = "set (concat layers)"
  let ?ss = "concat (map (successors adj) q)"
  from inv have dist: "distinct (concat layers @ q)"
    and deg: "\<And>x. x \<in> K \<Longrightarrow> degree_of deg x = int (open_edges E ?D x)"
    and zero: "?D \<union> set q = {x \<in> K. degree_of deg x = 0}"
    and n: "n = length (concat layers)"
    and lay: "layered E {} layers"
    and ne: "[] \<notin> set layers"
    by (simp_all add: bfs_inv_def)
  from dist have dq: "distinct q" and disj: "set q \<inter> ?D = {}" by auto
  have flat: "fold relax ?ss (deg, []) = (deg', nq)"
    using run by (simp add: fold_visit_flat)
  have spec: "(\<forall>x. degree_of deg' x = degree_of deg x - int (count_list ?ss x))
       \<and> distinct nq
       \<and> set nq = {x \<in> set ?ss. 0 < degree_of deg x \<and> degree_of deg x \<le> int (count_list ?ss x)}"
    using fold_relax_spec [of "[]" deg ?ss] by (simp add: flat)
  have cnt: "\<And>x. count_list ?ss x = length (filter (\<lambda>e. fst e \<in> set q \<and> snd e = x) E)"
    by (rule count_successors_of_queue [OF adj dq])
  have ssK: "set ?ss \<subseteq> K"
    using K by (auto simp: adj)
  have split: "\<And>x. open_edges E ?D x = open_edges E (?D \<union> set q) x + count_list ?ss x"
    using open_edges_split [OF disj] by (simp add: cnt)
  have deg': "\<And>x. x \<in> K \<Longrightarrow> degree_of deg' x = int (open_edges E (?D \<union> set q) x)"
    using spec deg split by simp
  have nq_pos: "\<And>x. x \<in> set nq \<Longrightarrow> 0 < degree_of deg x"
    using spec by auto
  have old_zero: "\<And>x. x \<in> ?D \<union> set q \<Longrightarrow> degree_of deg x = 0"
    using zero by blast
  have a: "distinct (concat (layers @ [q]) @ nq)"
  proof -
    have "set nq \<inter> (?D \<union> set q) = {}"
      using nq_pos old_zero by fastforce
    then show ?thesis using dist spec by auto
  qed
  have c: "set (concat (layers @ [q])) \<union> set nq = {x \<in> K. degree_of deg' x = 0}"
  proof (rule set_eqI)
    fix x
    show "x \<in> set (concat (layers @ [q])) \<union> set nq \<longleftrightarrow> x \<in> {x \<in> K. degree_of deg' x = 0}"
    proof
      assume "x \<in> set (concat (layers @ [q])) \<union> set nq"
      then consider "x \<in> ?D \<union> set q" | "x \<in> set nq" by auto
      then show "x \<in> {x \<in> K. degree_of deg' x = 0}"
      proof cases
        case 1
        then have xK: "x \<in> K" and "degree_of deg x = 0" using zero by auto
        then have "open_edges E ?D x = 0" using deg by simp
        then have "open_edges E (?D \<union> set q) x = 0" using split [of x] by simp
        then show ?thesis using deg' [OF xK] xK by simp
      next
        case 2
        then have xs: "x \<in> set ?ss" and le: "degree_of deg x \<le> int (count_list ?ss x)"
          using spec by auto
        from xs ssK have xK: "x \<in> K" by auto
        have "degree_of deg' x \<le> 0" using spec le by simp
        then show ?thesis using deg' [OF xK] xK by simp
      qed
    next
      assume "x \<in> {x \<in> K. degree_of deg' x = 0}"
      then have xK: "x \<in> K" and z: "degree_of deg' x = 0" by auto
      show "x \<in> set (concat (layers @ [q])) \<union> set nq"
      proof (cases "degree_of deg x = 0")
        case True
        then show ?thesis using zero xK by auto
      next
        case False
        then have pos: "0 < degree_of deg x" using deg [OF xK] by simp
        have eq: "degree_of deg x = int (count_list ?ss x)" using spec z by simp
        then have "0 < count_list ?ss x" using pos by simp
        then have "x \<in> set ?ss" by (metis count_notin less_numeral_extra(3))
        then have "x \<in> set nq" using spec pos eq by simp
        then show ?thesis by simp
      qed
    qed
  qed
  have e: "layered E {} (layers @ [q])"
  proof -
    have "\<forall>x \<in> set q. \<forall>e \<in> set E. snd e = x \<longrightarrow> fst e \<in> ?D"
    proof (intro ballI impI)
      fix x e assume x: "x \<in> set q" and e: "e \<in> set E" and s: "snd e = x"
      from x zero have xK: "x \<in> K" and "degree_of deg x = 0" by auto
      then have "open_edges E ?D x = 0" using deg by simp
      then have "\<forall>d. (d, x) \<in> set E \<longrightarrow> d \<in> ?D" by (simp add: open_edges_zero_iff)
      moreover have "(fst e, x) \<in> set E" using e s by (metis prod.collapse)
      ultimately show "fst e \<in> ?D" by blast
    qed
    then show ?thesis using lay by (simp add: layered_snoc)
  qed
  show ?thesis
    unfolding bfs_inv_def
    using a c e n ne q deg' by (simp add: Un_commute)
qed

lemma bfs_inv_exit:
  assumes inv: "bfs_inv E K deg [] layers processed"
  shows "bfs_post E K layers processed"
proof -
  let ?D = "set (concat layers)"
  from inv have deg: "\<And>x. x \<in> K \<Longrightarrow> degree_of deg x = int (open_edges E ?D x)"
    and zero: "?D = {x \<in> K. degree_of deg x = 0}"
    by (simp_all add: bfs_inv_def)
  have "\<exists>d. (d, x) \<in> set E \<and> d \<notin> ?D" if "x \<in> K - ?D" for x
  proof -
    from that zero have xK: "x \<in> K" and "degree_of deg x \<noteq> 0" by auto
    then have "open_edges E ?D x \<noteq> 0" using deg by simp
    then show ?thesis by (simp add: open_edges_zero_iff)
  qed
  then have open_left: "\<forall>x \<in> K - ?D. \<exists>d. (d, x) \<in> set E \<and> d \<notin> ?D" by blast
  have sub: "?D \<subseteq> K" using zero by blast
  from inv have "processed = length (concat layers)" "distinct (concat layers)"
    "layered E {} layers" "[] \<notin> set layers"
    by (simp_all add: bfs_inv_def)
  with open_left sub show ?thesis
    unfolding bfs_post_def by blast
qed

lemma bfs_layers_post:
  "(\<And>d. successors adj d = map snd (filter (\<lambda>e. fst e = d) E)) \<Longrightarrow>
   snd ` set E \<subseteq> K \<Longrightarrow>
   bfs_inv E K deg q layers n \<Longrightarrow>
   bfs_post E K (fst (bfs_layers adj deg q layers n)) (snd (bfs_layers adj deg q layers n))"
proof (induction adj deg q layers n rule: bfs_layers.induct)
  case (1 adjacency inDegree queue layers processedCount)
  note adj = "1.prems"(1) and K = "1.prems"(2) and inv = "1.prems"(3)
  show ?case
  proof (cases "queue = []")
    case True
    then show ?thesis
      using bfs_inv_exit [of E K inDegree layers processedCount] inv
      by (simp add: bfs_layers.simps [of adjacency inDegree "[]"])
  next
    case False
    obtain deg' nq where run: "fold (visit adjacency) queue (inDegree, []) = (deg', nq)"
      by (cases "fold (visit adjacency) queue (inDegree, [])")
    have inv': "bfs_inv E K deg' nq (layers @ [queue]) (processedCount + length queue)"
      by (rule bfs_inv_step [OF adj K inv False run])
    have "bfs_layers adjacency inDegree queue layers processedCount
            = bfs_layers adjacency deg' nq (layers @ [queue]) (processedCount + length queue)"
      using False run by (subst bfs_layers.simps) simp
    then show ?thesis
      using "1.IH" [OF False run [symmetric] refl adj K inv'] by simp
  qed
qed

subsection \<open>The maps after the two set-up loops\<close>

lemma fold_init_step:
  "fold init_step steps (sm, deg, adj)
     = (fold (\<lambda>step. map_set (step_id step) step) steps sm,
        fold (\<lambda>step. map_set (step_id step) 0) steps deg,
        fold (\<lambda>step. map_set (step_id step) []) steps adj)"
  by (induction steps arbitrary: sm deg adj) (simp_all add: init_step_def)

lemma map_of_map_set: "map_of (map_set k w m) = (map_of m)(k \<mapsto> w)"
  by (simp add: map_set_def update_conv')

lemma find_snoc:
  "find P (xs @ [y]) = (case find P xs of None \<Rightarrow> (if P y then Some y else None) | Some x \<Rightarrow> Some x)"
  by (induction xs) simp_all

lemma map_of_fold_map_set:
  "map_of (fold (\<lambda>step. map_set (step_id step) (f step)) steps m) k
     = (case find (\<lambda>step. step_id step = k) (rev steps) of
          None \<Rightarrow> map_of m k | Some step \<Rightarrow> Some (f step))"
proof (induction steps arbitrary: m)
  case Nil
  then show ?case by simp
next
  case (Cons a steps)
  show ?case
    by (simp add: Cons.IH map_of_map_set find_snoc split: option.splits)
qed

lemma find_None_ids:
  "find (\<lambda>step. step_id step = k) (rev steps) = None \<longleftrightarrow> k \<notin> set (step_ids steps)"
  by (auto simp: find_None_iff step_ids_def)

lemma keys_fold_map_set:
  "distinct (map fst m) \<Longrightarrow>
   distinct (map fst (fold (\<lambda>step. map_set (step_id step) (f step)) steps m))
   \<and> set (map fst (fold (\<lambda>step. map_set (step_id step) (f step)) steps m))
       = set (map fst m) \<union> set (step_ids steps)"
proof (induction steps arbitrary: m)
  case Nil
  then show ?case by (simp add: step_ids_def)
next
  case (Cons a steps)
  have d: "distinct (map fst (map_set (step_id a) (f a) m))"
    using Cons.prems by (simp add: map_set_def distinct_update)
  have s: "fst ` set (map_set (step_id a) (f a) m) = insert (step_id a) (fst ` set m)"
    by (simp add: map_set_def dom_update)
  show ?case
    using Cons.IH [OF d] by (simp add: s step_ids_def)
qed

lemma init_maps_stepMap:
  "map_has (fst (init_maps steps)) k \<longleftrightarrow> k \<in> set (step_ids steps)"
  using find_None_ids [of k steps]
  by (auto simp: init_maps_def fold_init_step map_has_def
        map_of_fold_map_set [where f = "\<lambda>step. step"] split: option.splits)

lemma init_maps_inDegree:
  "map_of (fst (snd (init_maps steps))) k = (if k \<in> set (step_ids steps) then Some 0 else None)"
  using find_None_ids [of k steps]
  by (auto simp: init_maps_def fold_init_step
        map_of_fold_map_set [where f = "\<lambda>step. 0"] split: option.splits)

lemma init_maps_adjacency:
  "map_of (snd (snd (init_maps steps))) k = (if k \<in> set (step_ids steps) then Some [] else None)"
  using find_None_ids [of k steps]
  by (auto simp: init_maps_def fold_init_step
        map_of_fold_map_set [where f = "\<lambda>step. []"] split: option.splits)

lemma init_maps_keys:
  "distinct (map fst (fst (snd (init_maps steps))))
   \<and> set (map fst (fst (snd (init_maps steps)))) = set (step_ids steps)"
  using keys_fold_map_set [of "[]" "\<lambda>step. 0" steps]
  by (simp add: init_maps_def fold_init_step)

lemma fold_err_append:
  "fold_err f (xs @ ys) s = (case fold_err f xs s of Inl e \<Rightarrow> Inl e | Inr s' \<Rightarrow> fold_err f ys s')"
  by (induction xs arbitrary: s) (simp_all split: sum.splits)

lemma fold_err_map: "fold_err f (map g xs) = fold_err (\<lambda>x. f (g x)) xs"
proof
  fix s show "fold_err f (map g xs) s = fold_err (\<lambda>x. f (g x)) xs s"
    by (induction xs arbitrary: s) (simp_all split: sum.splits)
qed

lemma fold_err_concat_map:
  "fold_err f (concat (map g xs)) s = fold_err (\<lambda>x. fold_err f (g x)) xs s"
  by (induction xs arbitrary: s) (simp_all add: fold_err_append split: sum.splits)

text \<open>The two nested \<^verbatim>\<open>for\<close> loops meet the edges in the order of \<open>dep_edges\<close>.\<close>

lemma build_graph_flat:
  "build_graph steps
     = fold_err (\<lambda>e. add_edge (snd e) (fst e)) (dep_edges steps) (init_maps steps)"
  by (simp add: build_graph_def dep_edges_def fold_err_concat_map fold_err_map
        add_step_edges_def [abs_def])

lemma add_edge_ok:
  assumes "map_has sm d" and "map_of adj d = Some a"
  shows "add_edge x d (sm, deg, adj)
           = Inr (sm, map_set x ((case map_of deg x of None \<Rightarrow> 0 | Some v \<Rightarrow> v) + 1) deg,
                  map_set d (a @ [x]) adj)"
  using assms by (simp add: add_edge_def map_get_def)

lemma successors_map_set:
  "successors (map_set d a adj) k = (if k = d then a else successors adj k)"
  by (simp add: successors_def map_get_def map_of_map_set)

lemma fold_add_edges_ok:
  assumes "\<forall>e \<in> set E. map_has sm (fst e)"
      and "\<forall>k. map_has sm k \<longrightarrow> map_of adj k \<noteq> None"
      and "\<forall>e \<in> set E. map_of deg (snd e) \<noteq> None"
  shows "\<exists>deg' adj'.
           fold_err (\<lambda>e. add_edge (snd e) (fst e)) E (sm, deg, adj) = Inr (sm, deg', adj')
         \<and> (\<forall>x. map_of deg' x
                  = map_option (\<lambda>v. v + int (count_list (map snd E) x)) (map_of deg x))
         \<and> (\<forall>d. successors adj' d = successors adj d @ map snd (filter (\<lambda>e. fst e = d) E))
         \<and> map fst deg' = map fst deg"
  using assms
proof (induction E arbitrary: deg adj)
  case Nil
  then show ?case by (simp add: option.map_ident)
next
  case (Cons e E)
  obtain d x where e: "e = (d, x)" by (cases e)
  from Cons.prems(1) e have has: "map_has sm d" by simp
  with Cons.prems(2) obtain a where a: "map_of adj d = Some a" by auto
  from Cons.prems(3) e obtain v where v: "map_of deg x = Some v" by auto
  let ?deg1 = "map_set x (v + 1) deg"
  let ?adj1 = "map_set d (a @ [x]) adj"
  have step: "add_edge x d (sm, deg, adj) = Inr (sm, ?deg1, ?adj1)"
    using add_edge_ok [OF has a, of x deg] by (simp add: v)
  have p1: "\<forall>e \<in> set E. map_has sm (fst e)" using Cons.prems(1) by simp
  have p2: "\<forall>k. map_has sm k \<longrightarrow> map_of ?adj1 k \<noteq> None"
    using Cons.prems(2) by (simp add: map_of_map_set)
  have p3: "\<forall>e \<in> set E. map_of ?deg1 (snd e) \<noteq> None"
    using Cons.prems(3) by (simp add: map_of_map_set)
  from Cons.IH [OF p1 p2 p3] obtain deg' adj' where
    run: "fold_err (\<lambda>e. add_edge (snd e) (fst e)) E (sm, ?deg1, ?adj1) = Inr (sm, deg', adj')"
    and dg: "\<And>y. map_of deg' y
                  = map_option (\<lambda>v. v + int (count_list (map snd E) y)) (map_of ?deg1 y)"
    and sc: "\<And>k. successors adj' k = successors ?adj1 k @ map snd (filter (\<lambda>e. fst e = k) E)"
    and ks: "map fst deg' = map fst ?deg1"
    by blast
  have r: "fold_err (\<lambda>e. add_edge (snd e) (fst e)) (e # E) (sm, deg, adj) = Inr (sm, deg', adj')"
    by (simp add: e step run)
  have c1: "\<forall>y. map_of deg' y
                  = map_option (\<lambda>v. v + int (count_list (map snd (e # E)) y)) (map_of deg y)"
    by (simp add: dg map_of_map_set e v)
  have sa: "successors adj d = a" by (simp add: successors_def map_get_def a)
  have c2: "\<forall>k. successors adj' k = successors adj k @ map snd (filter (\<lambda>e. fst e = k) (e # E))"
    by (simp add: sc successors_map_set e sa)
  have "x \<in> set (map fst deg)" using v by (metis map_of_eq_None_iff option.distinct(1) set_map)
  then have c3: "map fst deg' = map fst deg"
    by (simp add: ks map_set_def update_keys)
  show ?case using r c1 c2 c3 by blast
qed

lemma fold_add_edges_fail:
  assumes "\<exists>e \<in> set E. \<not> map_has sm (fst e)"
      and "\<forall>k. map_has sm k \<longrightarrow> map_of adj k \<noteq> None"
  shows "\<exists>d \<in> fst ` set E. \<not> map_has sm d
           \<and> fold_err (\<lambda>e. add_edge (snd e) (fst e)) E (sm, deg, adj)
               = Inl (DependencyNotFound d)"
  using assms
proof (induction E arbitrary: deg adj)
  case Nil
  then show ?case by simp
next
  case (Cons e E)
  obtain d x where e: "e = (d, x)" by (cases e)
  show ?case
  proof (cases "map_has sm d")
    case False
    then have "add_edge x d (sm, deg, adj) = Inl (DependencyNotFound d)"
      by (simp add: add_edge_def)
    then show ?thesis using False by (auto simp: e)
  next
    case True
    with Cons.prems(2) obtain a where a: "map_of adj d = Some a" by auto
    let ?deg1 = "map_set x ((case map_of deg x of None \<Rightarrow> 0 | Some v \<Rightarrow> v) + 1) deg"
    let ?adj1 = "map_set d (a @ [x]) adj"
    have step: "add_edge x d (sm, deg, adj) = Inr (sm, ?deg1, ?adj1)"
      by (rule add_edge_ok [OF True a])
    have p1: "\<exists>e \<in> set E. \<not> map_has sm (fst e)" using Cons.prems(1) True e by auto
    have p2: "\<forall>k. map_has sm k \<longrightarrow> map_of ?adj1 k \<noteq> None"
      using Cons.prems(2) by (simp add: map_of_map_set)
    from Cons.IH [OF p1 p2, of ?deg1] show ?thesis
      by (auto simp: e step)
  qed
qed

subsection \<open>What topologicalSort returns\<close>

lemma edges_targets: "snd ` set (dep_edges steps) \<subseteq> set (step_ids steps)"
  by (auto simp: set_dep_edges step_ids_def)

lemma edges_sources:
  "deps_resolve steps \<longleftrightarrow> fst ` set (dep_edges steps) \<subseteq> set (step_ids steps)"
  by (auto simp: set_dep_edges deps_resolve_def) force

lemma count_list_map_snd:
  "count_list (map snd E) x = open_edges E {} x"
  by (induction E) (auto simp: open_edges_def)

lemma zero_degree_ids_set:
  assumes "distinct (map fst deg)"
  shows "distinct (zero_degree_ids deg)
       \<and> set (zero_degree_ids deg) = {x. map_of deg x = Some 0}"
proof -
  have "distinct (map fst (filter (\<lambda>(sid, degree). degree = 0) deg))"
    using assms by (rule distinct_map_filter)
  moreover have "set (zero_degree_ids deg) = {x. map_of deg x = Some 0}"
    using assms by (force simp: zero_degree_ids_def)
  ultimately show ?thesis by (simp add: zero_degree_ids_def)
qed

lemma build_graph_resolved:
  assumes res: "deps_resolve steps"
  shows "\<exists>sm deg adj. build_graph steps = Inr (sm, deg, adj)
         \<and> distinct (map fst deg)
         \<and> (\<forall>x. map_of deg x
                  = (if x \<in> set (step_ids steps)
                     then Some (int (open_edges (dep_edges steps) {} x)) else None))
         \<and> (\<forall>d. successors adj d = map snd (filter (\<lambda>e. fst e = d) (dep_edges steps)))"
proof -
  let ?E = "dep_edges steps"
  obtain sm deg0 adj0 where init: "init_maps steps = (sm, deg0, adj0)"
    by (cases "init_maps steps")
  have sm: "\<And>k. map_has sm k \<longleftrightarrow> k \<in> set (step_ids steps)"
    using init_maps_stepMap [of steps] by (simp add: init)
  have deg0: "\<And>k. map_of deg0 k = (if k \<in> set (step_ids steps) then Some 0 else None)"
    using init_maps_inDegree [of steps] by (simp add: init)
  have adj0: "\<And>k. map_of adj0 k = (if k \<in> set (step_ids steps) then Some [] else None)"
    using init_maps_adjacency [of steps] by (simp add: init)
  have keys0: "distinct (map fst deg0)"
    using init_maps_keys [of steps] by (simp add: init)
  have a1: "\<forall>e \<in> set ?E. map_has sm (fst e)"
    using res by (auto simp: edges_sources sm)
  have a2: "\<forall>k. map_has sm k \<longrightarrow> map_of adj0 k \<noteq> None"
    by (simp add: sm adj0)
  have a3: "\<forall>e \<in> set ?E. map_of deg0 (snd e) \<noteq> None"
    using edges_targets [of steps] by (auto simp: deg0)
  from fold_add_edges_ok [OF a1 a2 a3] obtain deg adj where
    run: "fold_err (\<lambda>e. add_edge (snd e) (fst e)) ?E (sm, deg0, adj0) = Inr (sm, deg, adj)"
    and dg: "\<And>x. map_of deg x
               = map_option (\<lambda>v. v + int (count_list (map snd ?E) x)) (map_of deg0 x)"
    and sc: "\<And>d. successors adj d = successors adj0 d @ map snd (filter (\<lambda>e. fst e = d) ?E)"
    and ks: "map fst deg = map fst deg0"
    by blast
  have "build_graph steps = Inr (sm, deg, adj)"
    by (simp add: build_graph_flat init run)
  moreover have "distinct (map fst deg)" by (simp add: ks keys0)
  moreover have "\<forall>x. map_of deg x
                  = (if x \<in> set (step_ids steps) then Some (int (open_edges ?E {} x)) else None)"
    by (simp add: dg deg0 count_list_map_snd)
  moreover have "\<forall>d. successors adj d = map snd (filter (\<lambda>e. fst e = d) ?E)"
  proof
    fix d
    have "successors adj0 d = []" by (simp add: successors_def map_get_def adj0)
    then show "successors adj d = map snd (filter (\<lambda>e. fst e = d) ?E)" by (simp add: sc)
  qed
  ultimately show ?thesis by blast
qed

lemma build_graph_unresolved:
  assumes "\<not> deps_resolve steps"
  shows "\<exists>d. d \<notin> set (step_ids steps) \<and> d \<in> fst ` set (dep_edges steps)
            \<and> build_graph steps = Inl (DependencyNotFound d)"
proof -
  obtain sm deg0 adj0 where init: "init_maps steps = (sm, deg0, adj0)"
    by (cases "init_maps steps")
  have sm: "\<And>k. map_has sm k \<longleftrightarrow> k \<in> set (step_ids steps)"
    using init_maps_stepMap [of steps] by (simp add: init)
  have adj0: "\<And>k. map_of adj0 k = (if k \<in> set (step_ids steps) then Some [] else None)"
    using init_maps_adjacency [of steps] by (simp add: init)
  have a1: "\<exists>e \<in> set (dep_edges steps). \<not> map_has sm (fst e)"
    using assms by (auto simp: edges_sources sm)
  have a2: "\<forall>k. map_has sm k \<longrightarrow> map_of adj0 k \<noteq> None"
    by (simp add: sm adj0)
  from fold_add_edges_fail [OF a1 a2, of deg0] show ?thesis
    by (auto simp: build_graph_flat init sm)
qed

text \<open>
  With every dependency resolved, the result is decided by the count the loop kept:
  the layers when it equals the number of steps, the cycle error otherwise.
\<close>

lemma topologicalSort_resolved_run:
  assumes res: "deps_resolve steps"
  shows "\<exists>sm deg adj. build_graph steps = Inr (sm, deg, adj)
           \<and> bfs_post (dep_edges steps) (set (step_ids steps))
                (fst (bfs_layers adj deg (zero_degree_ids deg) [] 0))
                (snd (bfs_layers adj deg (zero_degree_ids deg) [] 0))
           \<and> topologicalSort steps
               = (if snd (bfs_layers adj deg (zero_degree_ids deg) [] 0) \<noteq> length steps
                  then Inl CircularDependency
                  else Inr (fst (bfs_layers adj deg (zero_degree_ids deg) [] 0)))"
proof -
  let ?E = "dep_edges steps" and ?K = "set (step_ids steps)"
  from build_graph_resolved [OF res] obtain sm deg adj where
    bg: "build_graph steps = Inr (sm, deg, adj)"
    and keys: "distinct (map fst deg)"
    and dg: "\<And>x. map_of deg x = (if x \<in> ?K then Some (int (open_edges ?E {} x)) else None)"
    and sc: "\<And>d. successors adj d = map snd (filter (\<lambda>e. fst e = d) ?E)"
    by blast
  let ?q = "zero_degree_ids deg"
  have dof: "\<And>x. x \<in> ?K \<Longrightarrow> degree_of deg x = int (open_edges ?E {} x)"
    by (simp add: degree_of_def map_get_def dg)
  have q: "distinct ?q" "set ?q = {x \<in> ?K. degree_of deg x = 0}"
    using zero_degree_ids_set [OF keys] by (auto simp: dg degree_of_def map_get_def)
  have inv: "bfs_inv ?E ?K deg ?q [] 0"
    unfolding bfs_inv_def using q dof by simp
  have post: "bfs_post ?E ?K (fst (bfs_layers adj deg ?q [] 0)) (snd (bfs_layers adj deg ?q [] 0))"
    by (rule bfs_layers_post [OF sc edges_targets inv])
  have "topologicalSort steps
          = (if snd (bfs_layers adj deg ?q [] 0) \<noteq> length steps then Inl CircularDependency
             else Inr (fst (bfs_layers adj deg ?q [] 0)))"
    by (simp add: topologicalSort_def bg Let_def split_beta)
  with post bg show ?thesis by blast
qed

lemma topologicalSort_resolved:
  assumes res: "deps_resolve steps"
  shows "\<exists>layers n. bfs_post (dep_edges steps) (set (step_ids steps)) layers n
           \<and> topologicalSort steps
               = (if n \<noteq> length steps then Inl CircularDependency else Inr layers)"
  using topologicalSort_resolved_run [OF res] by blast

lemma topologicalSort_unresolved:
  assumes "\<not> deps_resolve steps"
  shows "\<exists>d. d \<notin> set (step_ids steps) \<and> d \<in> fst ` set (dep_edges steps)
            \<and> topologicalSort steps = Inl (DependencyNotFound d)"
  using build_graph_unresolved [OF assms] by (auto simp: topologicalSort_def)

subsection \<open>Order of a sequence\<close>

text \<open>\<open>a\<close> stands at a position of \<open>xs\<close> strictly before a position where \<open>b\<close> stands.\<close>

definition appears_before :: "'a list \<Rightarrow> 'a \<Rightarrow> 'a \<Rightarrow> bool" where
  "appears_before xs a b \<longleftrightarrow> (\<exists>j \<in> {..<length xs}. \<exists>i \<in> {..<j}. xs ! i = a \<and> xs ! j = b)"

text \<open>
  A sequence of step ids respects the dependencies of a step list when every step id
  appears strictly after each id in that step's dependencies.
\<close>

definition respects_dependencies :: "'v task_step list \<Rightarrow> string list \<Rightarrow> bool" where
  "respects_dependencies steps order \<longleftrightarrow>
     (\<forall>step \<in> set steps. \<forall>depId \<in> set (dependencies step).
        appears_before order depId (step_id step))"

lemma appears_before_split:
  assumes "a \<in> set us" and "b \<in> set vs"
  shows "appears_before (us @ vs) a b"
proof -
  from assms obtain i j where i: "i < length us" "us ! i = a" and j: "j < length vs" "vs ! j = b"
    by (auto simp: in_set_conv_nth)
  have "length us + j < length (us @ vs)" using j by simp
  moreover have "i < length us + j" using i by simp
  moreover have "(us @ vs) ! i = a" using i by (simp add: nth_append)
  moreover have "(us @ vs) ! (length us + j) = b" using j by (simp add: nth_append)
  ultimately show ?thesis unfolding appears_before_def by blast
qed

lemma appears_before_append:
  assumes "appears_before ys a b"
  shows "appears_before (xs @ ys) a b"
proof -
  from assms obtain i j where ij: "i < j" "j < length ys" "ys ! i = a" "ys ! j = b"
    by (auto simp: appears_before_def)
  have "length xs + j < length (xs @ ys)" using ij by simp
  moreover have "length xs + i < length xs + j" using ij by simp
  moreover have "(xs @ ys) ! (length xs + i) = a" using ij by (simp add: nth_append)
  moreover have "(xs @ ys) ! (length xs + j) = b" using ij by (simp add: nth_append)
  ultimately show ?thesis unfolding appears_before_def by blast
qed

lemma appears_before_trans:
  assumes "distinct xs" and "appears_before xs a b" and "appears_before xs b c"
  shows "appears_before xs a c"
proof -
  from assms(2) obtain i j where ij: "i < j" "j < length xs" "xs ! i = a" "xs ! j = b"
    by (auto simp: appears_before_def)
  from assms(3) obtain j' k where jk: "j' < k" "k < length xs" "xs ! j' = b" "xs ! k = c"
    by (auto simp: appears_before_def)
  have "j' < length xs" using jk by simp
  then have "j = j'"
    using nth_eq_iff_index_eq [OF assms(1) ij(2), of j'] ij jk by simp
  then have "i < k" using ij jk by simp
  then show ?thesis using ij jk unfolding appears_before_def by blast
qed

lemma appears_before_irrefl:
  assumes "distinct xs"
  shows "\<not> appears_before xs a a"
proof
  assume "appears_before xs a a"
  then obtain i j where ij: "i < j" "j < length xs" "xs ! i = a" "xs ! j = a"
    by (auto simp: appears_before_def)
  have il: "i < length xs" using ij by simp
  have "i = j" using nth_eq_iff_index_eq [OF assms il ij(2)] ij by simp
  then show False using ij by simp
qed

lemma layered_appears_before:
  "layered E D layers \<Longrightarrow> (d, x) \<in> set E \<Longrightarrow> x \<in> set (concat layers) \<Longrightarrow>
   d \<in> D \<or> appears_before (concat layers) d x"
proof (induction layers arbitrary: D)
  case Nil
  then show ?case by simp
next
  case (Cons l layers)
  from Cons.prems(1) have here: "\<forall>y \<in> set l. \<forall>e \<in> set E. snd e = y \<longrightarrow> fst e \<in> D"
    and rest: "layered E (D \<union> set l) layers" by simp_all
  show ?case
  proof (cases "x \<in> set l")
    case True
    then show ?thesis using here Cons.prems(2) by force
  next
    case False
    then have x: "x \<in> set (concat layers)" using Cons.prems(3) by simp
    from Cons.IH [OF rest Cons.prems(2) x]
    consider "d \<in> D" | "d \<in> set l" | "appears_before (concat layers) d x" by blast
    then show ?thesis
    proof cases
      case 1
      then show ?thesis by simp
    next
      case 2
      then show ?thesis using appears_before_split [OF 2 x] by simp
    next
      case 3
      then show ?thesis using appears_before_append [OF 3, of l] by simp
    qed
  qed
qed

subsection \<open>Consequences for the returned layers\<close>

lemma topologicalSort_Inr:
  assumes "topologicalSort steps = Inr layers"
  shows "deps_resolve steps
       \<and> bfs_post (dep_edges steps) (set (step_ids steps)) layers (length steps)"
proof -
  have res: "deps_resolve steps"
    using assms topologicalSort_unresolved [of steps] by auto
  from topologicalSort_resolved [OF res] obtain L n where
    post: "bfs_post (dep_edges steps) (set (step_ids steps)) L n"
    and ts: "topologicalSort steps = (if n \<noteq> length steps then Inl CircularDependency else Inr L)"
    by blast
  from ts assms have "n = length steps" "L = layers"
    by (auto split: if_splits)
  with post res show ?thesis by simp
qed

lemma bfs_post_partition:
  assumes "bfs_post E (set (step_ids steps)) layers (length steps)"
  shows "distinct (step_ids steps) \<and> distinct (concat layers)
       \<and> set (concat layers) = set (step_ids steps) \<and> [] \<notin> set layers"
proof -
  let ?O = "concat layers" and ?ids = "step_ids steps"
  from assms have len: "length ?O = length steps" and d: "distinct ?O"
    and sub: "set ?O \<subseteq> set ?ids" and ne: "[] \<notin> set layers"
    by (simp_all add: bfs_post_def)
  have "card (set ?O) = length ?O" using d by (rule distinct_card)
  then have "card (set ?O) = length ?ids"
    using len by (simp add: step_ids_def)
  moreover have "card (set ?O) \<le> card (set ?ids)"
    using sub by (simp add: card_mono)
  moreover have "card (set ?ids) \<le> length ?ids" by (rule card_length)
  ultimately have c: "card (set ?ids) = length ?ids" and e: "card (set ?O) = card (set ?ids)"
    by simp_all
  from c have "distinct ?ids" by (rule card_distinct)
  moreover from sub e have "set ?O = set ?ids" by (simp add: card_subset_eq)
  ultimately show ?thesis using d ne by simp
qed

lemma bfs_post_respects:
  assumes "bfs_post (dep_edges steps) K layers n"
      and "set (concat layers) = set (step_ids steps)"
  shows "respects_dependencies steps (concat layers)"
  unfolding respects_dependencies_def
proof (intro ballI)
  fix step depId assume s: "step \<in> set steps" and d: "depId \<in> set (dependencies step)"
  from assms(1) have lay: "layered (dep_edges steps) {} layers" by (simp add: bfs_post_def)
  have e: "(depId, step_id step) \<in> set (dep_edges steps)"
    using s d by (auto simp: set_dep_edges)
  have x: "step_id step \<in> set (concat layers)"
    using s assms(2) by (simp add: step_ids_def)
  from layered_appears_before [OF lay e x]
  show "appears_before (concat layers) depId (step_id step)" by simp
qed

text \<open>A step list that the sort accepts has an acyclic dependency relation.\<close>

lemma respects_acyclic:
  assumes r: "respects_dependencies steps order" and d: "distinct order"
  shows "deps_acyclic steps"
proof -
  have edge: "appears_before order a b" if "(a, b) \<in> set (dep_edges steps)" for a b
    using that r by (auto simp: set_dep_edges respects_dependencies_def)
  have "appears_before order a b" if "(a, b) \<in> (set (dep_edges steps))\<^sup>+" for a b
    using that
  proof (induction rule: trancl_induct)
    case (base y)
    then show ?case by (rule edge)
  next
    case (step y z)
    then show ?case using appears_before_trans [OF d] edge by blast
  qed
  then show ?thesis
    unfolding deps_acyclic_def acyclic_def
    using appears_before_irrefl [OF d] by blast
qed

lemma topologicalSort_Inr_acyclic:
  assumes "topologicalSort steps = Inr layers"
  shows "deps_acyclic steps"
proof -
  from topologicalSort_Inr [OF assms]
  have post: "bfs_post (dep_edges steps) (set (step_ids steps)) layers (length steps)" by simp
  from bfs_post_partition [OF post] have p: "distinct (concat layers)"
    "set (concat layers) = set (step_ids steps)" by simp_all
  from bfs_post_respects [OF post p(2)] p(1) show ?thesis by (rule respects_acyclic)
qed

text \<open>With an acyclic relation the frontier process reaches every id.\<close>

lemma bfs_post_complete:
  assumes post: "bfs_post (dep_edges steps) (set (step_ids steps)) layers n"
      and res: "deps_resolve steps" and acy: "deps_acyclic steps"
  shows "set (concat layers) = set (step_ids steps)"
proof (rule ccontr)
  let ?E = "set (dep_edges steps)" and ?K = "set (step_ids steps)" and ?O = "set (concat layers)"
  assume neq: "?O \<noteq> ?K"
  from post have sub: "?O \<subseteq> ?K"
    and opn: "\<And>x. x \<in> ?K - ?O \<Longrightarrow> \<exists>d. (d, x) \<in> ?E \<and> d \<notin> ?O"
    by (simp_all add: bfs_post_def)
  from neq sub obtain u where u: "u \<in> ?K - ?O" by blast
  have "wf ?E" using acy by (simp add: deps_acyclic_def finite_acyclic_wf)
  from wfE_min [OF this u] obtain z where z: "z \<in> ?K - ?O"
    and zmin: "\<And>y. (y, z) \<in> ?E \<Longrightarrow> y \<notin> ?K - ?O" by blast
  from opn [OF z] obtain d where d: "(d, z) \<in> ?E" "d \<notin> ?O" by blast
  have "d \<in> ?K" using res d(1) by (force simp: edges_sources)
  with d zmin show False by blast
qed

lemma bfs_post_count_le:
  assumes "bfs_post E (set (step_ids steps)) layers n"
  shows "n \<le> length steps"
proof -
  from assms have n: "n = length (concat layers)" and d: "distinct (concat layers)"
    and sub: "set (concat layers) \<subseteq> set (step_ids steps)"
    by (simp_all add: bfs_post_def)
  have "card (set (concat layers)) = length (concat layers)" using d by (rule distinct_card)
  then have "n = card (set (concat layers))" using n by simp
  also have "\<dots> \<le> card (set (step_ids steps))" using sub by (simp add: card_mono)
  also have "\<dots> \<le> length (step_ids steps)" by (rule card_length)
  finally show ?thesis by (simp add: step_ids_def)
qed

lemma acyclic_empty_rel: "acyclic {}"
  by (simp add: acyclic_def)

section \<open>Concrete step lists\<close>

definition plain_step :: "string \<Rightarrow> string list \<Rightarrow> unit task_step" where
  "plain_step sid deps =
     \<lparr>step_id = sid, step_type = ''competitor_analysis'', dependencies = deps,
      parameters = [], status = pending, result = None\<rparr>"

definition chain_steps :: "unit task_step list" where
  "chain_steps = [plain_step ''a'' [], plain_step ''b'' [''a''], plain_step ''c'' [''b'']]"

definition cycle_steps :: "unit task_step list" where
  "cycle_steps = [plain_step ''a'' [''b''], plain_step ''b'' [''a'']]"

definition same_id_steps :: "unit task_step list" where
  "same_id_steps = [plain_step ''a'' [], plain_step ''a'' []]"

definition dangling_steps :: "unit task_step list" where
  "dangling_steps = [plain_step ''a'' [''nonexistent'']]"

lemmas sort_eval =
  topologicalSort_def build_graph_def init_maps_def init_step_def add_step_edges_def
  add_edge_def map_has_def map_get_def map_set_def zero_degree_ids_def bfs_layers.simps
  visit_def relax_def successors_def Let_def

lemma chain_steps_resolve: "deps_resolve chain_steps"
  by (simp add: deps_resolve_def chain_steps_def plain_step_def step_ids_def)

lemma chain_steps_acyclic: "deps_acyclic chain_steps"
  by (auto simp: deps_acyclic_def dep_edges_def chain_steps_def plain_step_def acyclic_empty_rel
        elim: rtranclE)

lemma chain_steps_distinct: "distinct (step_ids chain_steps)"
  by (simp add: chain_steps_def plain_step_def step_ids_def)

section \<open>Claims about topologicalSort\<close>

text \<open>
  C1 (as amended). For every list of steps with pairwise distinct ids, whose dependency
  ids all refer to steps in the list and whose dependency relation is acyclic,
  \<open>topologicalSort\<close> returns layers; their concatenation holds every step id exactly once
  and nothing else, and in it every step id appears strictly after every id in that
  step's dependencies.
\<close>

theorem topologicalSort_layering:
  assumes res: "deps_resolve steps" and acy: "deps_acyclic steps"
      and ids: "distinct (step_ids steps)"
  shows "\<exists>layers. topologicalSort steps = Inr layers
           \<and> distinct (concat layers)
           \<and> set (concat layers) = set (step_ids steps)
           \<and> respects_dependencies steps (concat layers)"
proof -
  from topologicalSort_resolved [OF res] obtain layers n where
    post: "bfs_post (dep_edges steps) (set (step_ids steps)) layers n"
    and ts: "topologicalSort steps
               = (if n \<noteq> length steps then Inl CircularDependency else Inr layers)"
    by blast
  have all: "set (concat layers) = set (step_ids steps)"
    by (rule bfs_post_complete [OF post res acy])
  from post have n: "n = length (concat layers)" and d: "distinct (concat layers)"
    by (simp_all add: bfs_post_def)
  have "card (set (concat layers)) = length (concat layers)" using d by (rule distinct_card)
  then have "n = card (set (concat layers))" using n by simp
  also have "\<dots> = length (step_ids steps)" using ids by (simp only: all distinct_card)
  finally have "n = length steps" by (simp add: step_ids_def)
  with ts have "topologicalSort steps = Inr layers" by simp
  with d all bfs_post_respects [OF post all] show ?thesis by blast
qed

theorem topologicalSort_layering_witness:
  "deps_resolve chain_steps \<and> deps_acyclic chain_steps \<and> distinct (step_ids chain_steps)
   \<and> topologicalSort chain_steps = Inr [[''a''], [''b''], [''c'']]
   \<and> distinct (concat [[''a''], [''b''], [''c'']])
   \<and> set (concat [[''a''], [''b''], [''c'']]) = set (step_ids chain_steps)
   \<and> respects_dependencies chain_steps (concat [[''a''], [''b''], [''c'']])"
proof -
  have ts: "topologicalSort chain_steps = Inr [[''a''], [''b''], [''c'']]"
    by (simp add: chain_steps_def plain_step_def sort_eval)
  from topologicalSort_layering [OF chain_steps_resolve chain_steps_acyclic chain_steps_distinct]
  have "distinct (concat [[''a''], [''b''], [''c'']])
      \<and> set (concat [[''a''], [''b''], [''c'']]) = set (step_ids chain_steps)
      \<and> respects_dependencies chain_steps (concat [[''a''], [''b''], [''c'']])"
    by (simp only: ts sum.inject) (elim exE conjE, simp)
  with ts chain_steps_resolve chain_steps_acyclic chain_steps_distinct show ?thesis
    by (intro conjI) (elim conjE, assumption)+
qed

text \<open>
  C1 as stated fails on a list that holds one id twice: its dependency ids all resolve
  and its dependency relation is empty, yet \<open>inDegree\<close> is keyed by id, so the processed
  count (1) differs from the number of steps (2) and the cycle error is thrown.
\<close>

theorem topologicalSort_same_id_counterexample:
  "deps_resolve same_id_steps \<and> deps_acyclic same_id_steps
   \<and> topologicalSort same_id_steps = Inl CircularDependency"
proof -
  have "deps_resolve same_id_steps"
    by (simp add: deps_resolve_def same_id_steps_def plain_step_def)
  moreover have "deps_acyclic same_id_steps"
    by (simp add: deps_acyclic_def dep_edges_def same_id_steps_def plain_step_def
          acyclic_empty_rel)
  moreover have "topologicalSort same_id_steps = Inl CircularDependency"
    by (simp add: same_id_steps_def plain_step_def sort_eval)
  ultimately show ?thesis by simp
qed

text \<open>
  C4. For every list of steps whose dependency ids all resolve but whose dependency
  relation contains a cycle, \<open>topologicalSort\<close> throws the circular-dependency error and
  returns no layers: the set-up loops succeed, the frontier loop ends with a processed
  count below the number of steps, and the comparison after the loop throws.
\<close>

theorem topologicalSort_cycle:
  assumes res: "deps_resolve steps" and cyc: "\<not> deps_acyclic steps"
  shows "\<exists>sm deg adj. build_graph steps = Inr (sm, deg, adj)
           \<and> snd (bfs_layers adj deg (zero_degree_ids deg) [] 0) < length steps
           \<and> topologicalSort steps = Inl CircularDependency"
proof -
  from topologicalSort_resolved_run [OF res] obtain sm deg adj where
    bg: "build_graph steps = Inr (sm, deg, adj)"
    and post: "bfs_post (dep_edges steps) (set (step_ids steps))
                (fst (bfs_layers adj deg (zero_degree_ids deg) [] 0))
                (snd (bfs_layers adj deg (zero_degree_ids deg) [] 0))"
    and ts: "topologicalSort steps
               = (if snd (bfs_layers adj deg (zero_degree_ids deg) [] 0) \<noteq> length steps
                  then Inl CircularDependency
                  else Inr (fst (bfs_layers adj deg (zero_degree_ids deg) [] 0)))"
    by blast
  let ?n = "snd (bfs_layers adj deg (zero_degree_ids deg) [] 0)"
  have "?n \<noteq> length steps"
  proof
    assume "?n = length steps"
    with ts have "topologicalSort steps = Inr (fst (bfs_layers adj deg (zero_degree_ids deg) [] 0))"
      by simp
    then have "deps_acyclic steps" by (rule topologicalSort_Inr_acyclic)
    with cyc show False by simp
  qed
  moreover have "?n \<le> length steps" by (rule bfs_post_count_le [OF post])
  ultimately have "?n < length steps" by simp
  with bg ts show ?thesis by auto
qed

theorem topologicalSort_cycle_witness:
  "deps_resolve cycle_steps \<and> \<not> deps_acyclic cycle_steps
   \<and> topologicalSort cycle_steps = Inl CircularDependency"
proof -
  have r: "deps_resolve cycle_steps"
    by (simp add: deps_resolve_def cycle_steps_def plain_step_def step_ids_def)
  have c: "\<not> deps_acyclic cycle_steps"
    by (auto simp: deps_acyclic_def dep_edges_def cycle_steps_def plain_step_def
          acyclic_empty_rel)
  from topologicalSort_cycle [OF r c] r c show ?thesis by blast
qed

text \<open>
  C5. For every list of steps in which some step declares a dependency id that matches
  no step id in the list, \<open>topologicalSort\<close> throws the not-found error for such an id,
  and the error comes from the set-up loops (\<open>build_graph\<close>), before the frontier loop
  computes any layer.
\<close>

theorem topologicalSort_unknown_dependency:
  assumes "\<exists>step \<in> set steps. \<exists>depId \<in> set (dependencies step). depId \<notin> set (step_ids steps)"
  shows "\<exists>depId. depId \<notin> set (step_ids steps)
           \<and> (\<exists>step \<in> set steps. depId \<in> set (dependencies step))
           \<and> build_graph steps = Inl (DependencyNotFound depId)
           \<and> topologicalSort steps = Inl (DependencyNotFound depId)"
proof -
  from assms have "\<not> deps_resolve steps" by (auto simp: deps_resolve_def)
  from build_graph_unresolved [OF this] obtain d where
    d: "d \<notin> set (step_ids steps)" "d \<in> fst ` set (dep_edges steps)"
       "build_graph steps = Inl (DependencyNotFound d)"
    by blast
  from d(2) have "\<exists>step \<in> set steps. d \<in> set (dependencies step)"
    by (auto simp: set_dep_edges)
  moreover from d(3) have "topologicalSort steps = Inl (DependencyNotFound d)"
    by (simp add: topologicalSort_def)
  ultimately show ?thesis using d by blast
qed

theorem topologicalSort_unknown_dependency_witness:
  "(\<exists>step \<in> set dangling_steps. \<exists>depId \<in> set (dependencies step).
       depId \<notin> set (step_ids dangling_steps))
   \<and> topologicalSort dangling_steps = Inl (DependencyNotFound ''nonexistent'')"
proof -
  have h: "\<exists>step \<in> set dangling_steps. \<exists>depId \<in> set (dependencies step).
             depId \<notin> set (step_ids dangling_steps)"
    by (simp add: dangling_steps_def plain_step_def step_ids_def)
  from topologicalSort_unknown_dependency [OF h] obtain d where
    "\<exists>step \<in> set dangling_steps. d \<in> set (dependencies step)"
    "topologicalSort dangling_steps = Inl (DependencyNotFound d)" by blast
  then have "topologicalSort dangling_steps = Inl (DependencyNotFound ''nonexistent'')"
    by (simp add: dangling_steps_def plain_step_def)
  with h show ?thesis by blast
qed

section \<open>Identifiers and the module state\<close>

text \<open>
  The module-level variables: the two maps and the two counters. The counters are
  JavaScript numbers that only \<^verbatim>\<open>++\<close> and the reset touch; they are modelled as
  \<open>nat\<close>, which is exact below \<open>2^53\<close>. \<^verbatim>\<open>Date.now()\<close> is an input from outside: a
  clock gives the value of the \<open>k\<close>-th reading, and the state counts the readings.
\<close>

record 'v orchestrator =
  planStore :: "(string, 'v execution_plan) js_map"
  stepIndex :: "(string, string) js_map"
  planCounter :: nat
  stepCounter :: nat
  clockReads :: nat

type_synonym clock = "nat \<Rightarrow> int"

definition date_now :: "clock \<Rightarrow> 'v orchestrator \<Rightarrow> int \<times> 'v orchestrator" where
  "date_now clk st = (clk (clockReads st), st\<lparr>clockReads := clockReads st + 1\<rparr>)"

text \<open>The decimal text a template literal gives an integer.\<close>

definition digit_char :: "nat \<Rightarrow> char" where
  "digit_char d =
     (if d = 0 then CHR ''0'' else if d = 1 then CHR ''1'' else if d = 2 then CHR ''2''
      else if d = 3 then CHR ''3'' else if d = 4 then CHR ''4'' else if d = 5 then CHR ''5''
      else if d = 6 then CHR ''6'' else if d = 7 then CHR ''7'' else if d = 8 then CHR ''8''
      else CHR ''9'')"

function show_nat :: "nat \<Rightarrow> string" where
  "show_nat n = (if n < 10 then [digit_char n] else show_nat (n div 10) @ [digit_char (n mod 10)])"
  by pat_completeness auto
termination
  by (relation "measure (\<lambda>n. n)") auto

declare show_nat.simps [simp del]

definition show_int :: "int \<Rightarrow> string" where
  "show_int i = (if i < 0 then CHR ''-'' # show_nat (nat (- i)) else show_nat (nat i))"

text \<open>The two template literals \<^verbatim>\<open>plan-${Date.now()}-${planCounter}\<close> and
  \<^verbatim>\<open>step-${Date.now()}-${stepCounter}\<close>.\<close>

definition plan_id_text :: "int \<Rightarrow> nat \<Rightarrow> string" where
  "plan_id_text now counter = ''plan-'' @ show_int now @ ''-'' @ show_nat counter"

definition step_id_text :: "int \<Rightarrow> nat \<Rightarrow> string" where
  "step_id_text now counter = ''step-'' @ show_int now @ ''-'' @ show_nat counter"

definition generatePlanId :: "clock \<Rightarrow> 'v orchestrator \<Rightarrow> string \<times> 'v orchestrator" where
  "generatePlanId clk st =
     (let st1 = st\<lparr>planCounter := planCounter st + 1\<rparr>;
          (now, st2) = date_now clk st1
      in (plan_id_text now (planCounter st2), st2))"

definition generateStepId :: "clock \<Rightarrow> 'v orchestrator \<Rightarrow> string \<times> 'v orchestrator" where
  "generateStepId clk st =
     (let st1 = st\<lparr>stepCounter := stepCounter st + 1\<rparr>;
          (now, st2) = date_now clk st1
      in (step_id_text now (stepCounter st2), st2))"

definition clearAllPlans :: "'v orchestrator \<Rightarrow> 'v orchestrator" where
  "clearAllPlans st = st\<lparr>planStore := [], stepIndex := [], planCounter := 0, stepCounter := 0\<rparr>"

section \<open>Plan builder (getPlanTemplate, buildSteps, createPlan)\<close>

text \<open>\<^verbatim>\<open>ParsedIntent\<close>; its \<^verbatim>\<open>confidence\<close> field is a float the orchestrator never reads.\<close>

record 'v parsed_intent =
  taskType :: task_type
  platform :: string
  category :: string
  intent_parameters :: "(string, 'v param_value) js_map"

record step_template =
  template_type :: task_type
  descriptionKey :: string

record plan_template =
  template_steps :: "step_template list"
  template_dependencies :: "(nat, nat list) js_map"

definition getPlanTemplate :: "task_type \<Rightarrow> plan_template" where
  "getPlanTemplate tt =
     (if tt = ''strategy_generation'' then
        \<lparr>template_steps =
           [\<lparr>template_type = ''competitor_analysis'', descriptionKey = ''collect_competitor_data''\<rparr>,
            \<lparr>template_type = ''trending_tracking'', descriptionKey = ''collect_trending_data''\<rparr>,
            \<lparr>template_type = ''strategy_generation'', descriptionKey = ''generate_strategy''\<rparr>,
            \<lparr>template_type = ''content_generation'',
              descriptionKey = ''generate_strategy_content''\<rparr>],
         template_dependencies = [(0, []), (1, []), (2, [0, 1]), (3, [2])]\<rparr>
      else if tt = ''content_publish'' then
        \<lparr>template_steps =
           [\<lparr>template_type = ''content_generation'', descriptionKey = ''prepare_content''\<rparr>,
            \<lparr>template_type = ''content_publish'', descriptionKey = ''publish_content''\<rparr>],
         template_dependencies = [(0, []), (1, [0])]\<rparr>
      else if tt = ''operation_summary'' then
        \<lparr>template_steps =
           [\<lparr>template_type = ''comment_analysis'', descriptionKey = ''analyze_comments''\<rparr>,
            \<lparr>template_type = ''operation_summary'', descriptionKey = ''generate_summary''\<rparr>],
         template_dependencies = [(0, []), (1, [0])]\<rparr>
      else
        \<lparr>template_steps = [\<lparr>template_type = tt, descriptionKey = ''execute_'' @ tt\<rparr>],
         template_dependencies = [(0, [])]\<rparr>)"

text \<open>The first loop of \<^verbatim>\<open>buildSteps\<close>: one step per template entry, with a fresh id.\<close>

definition make_step ::
  "clock \<Rightarrow> 'v parsed_intent \<Rightarrow> step_template \<Rightarrow>
   string list \<times> 'v task_step list \<times> 'v orchestrator \<Rightarrow>
   string list \<times> 'v task_step list \<times> 'v orchestrator" where
  "make_step clk intent stepTemplate = (\<lambda>(stepIds, stepList, st).
     let (sid, st') = generateStepId clk st
     in (stepIds @ [sid],
         stepList @
           [\<lparr>step_id = sid,
             step_type = template_type stepTemplate,
             dependencies = [],
             parameters =
               map_set ''descriptionKey'' (param_string (descriptionKey stepTemplate))
                 (map_set ''category'' (param_string (category intent))
                    (map_set ''platform'' (param_string (platform intent))
                       (intent_parameters intent))),
             status = pending,
             result = None\<rparr>],
         st'))"

text \<open>
  \<^verbatim>\<open>stepIds[depIdx]\<close>. Out of range JavaScript yields \<^verbatim>\<open>undefined\<close>, which is no string
  and equals no step id; the model writes the text \<^verbatim>\<open>undefined\<close> there. No template of
  \<open>getPlanTemplate\<close> has such an index.
\<close>

definition id_at :: "string list \<Rightarrow> nat \<Rightarrow> string" where
  "id_at stepIds depIdx = (if depIdx < length stepIds then stepIds ! depIdx else ''undefined'')"

text \<open>The second loop: \<^verbatim>\<open>template.dependencies[i] ?? []\<close>, indices turned into ids.\<close>

definition fill_dependencies ::
  "plan_template \<Rightarrow> string list \<Rightarrow> 'v task_step list \<Rightarrow> 'v task_step list" where
  "fill_dependencies template stepIds stepList =
     map (\<lambda>(i, step).
            let depIndices = (case map_get (template_dependencies template) i of
                                None \<Rightarrow> [] | Some ds \<Rightarrow> ds)
            in step\<lparr>dependencies := map (id_at stepIds) depIndices\<rparr>)
         (enumerate 0 stepList)"

definition buildSteps ::
  "clock \<Rightarrow> 'v parsed_intent \<Rightarrow> plan_template \<Rightarrow> 'v orchestrator \<Rightarrow>
   'v task_step list \<times> 'v orchestrator" where
  "buildSteps clk intent template st =
     (let (stepIds, stepList, st') =
            fold (make_step clk intent) (template_steps template) ([], [], st)
      in (fill_dependencies template stepIds stepList, st'))"

definition createPlan ::
  "clock \<Rightarrow> 'v parsed_intent \<Rightarrow> 'v orchestrator \<Rightarrow> 'v execution_plan \<times> 'v orchestrator" where
  "createPlan clk intent st =
     (let template = getPlanTemplate (taskType intent);
          (stepList, st1) = buildSteps clk intent template st;
          (planId, st2) = generatePlanId clk st1;
          (created, st3) = date_now clk st2;
          plan = \<lparr>plan_id = planId, plan_steps = stepList, plan_status = pending,
                  createdAt = created\<rparr>;
          st4 = st3\<lparr>planStore := map_set planId plan (planStore st3)\<rparr>;
          st5 = fold (\<lambda>step s. s\<lparr>stepIndex := map_set (step_id step) planId (stepIndex s)\<rparr>)
                  stepList st4
      in (plan, st5))"

definition empty_orchestrator :: "unit orchestrator" where
  "empty_orchestrator =
     \<lparr>planStore = [], stepIndex = [], planCounter = 0, stepCounter = 0, clockReads = 0\<rparr>"

definition test_intent :: "task_type \<Rightarrow> unit parsed_intent" where
  "test_intent tt =
     \<lparr>taskType = tt, platform = ''xiaohongshu'', category = ''beauty'',
      intent_parameters = [(''rawInput'', param_string ''analyse'')]\<rparr>"

subsection \<open>Decimal texts and ids\<close>

lemma digit_char_inj: "a < 10 \<Longrightarrow> b < 10 \<Longrightarrow> digit_char a = digit_char b \<Longrightarrow> a = b"
  by (simp add: digit_char_def split: if_splits) arith

lemma digit_char_not_minus: "digit_char d \<noteq> CHR ''-''"
  by (simp add: digit_char_def)

lemma show_nat_nonempty: "show_nat n \<noteq> []"
  by (subst show_nat.simps) simp

lemma show_nat_no_minus: "CHR ''-'' \<notin> set (show_nat n)"
proof (induction n rule: show_nat.induct)
  case (1 n)
  show ?case
  proof (cases "n < 10")
    case True
    then show ?thesis
      using digit_char_not_minus [of n] by (subst show_nat.simps) auto
  next
    case False
    then show ?thesis
      using "1.IH" digit_char_not_minus [of "n mod 10"] by (subst show_nat.simps) auto
  qed
qed

lemma show_nat_inj: "show_nat n = show_nat m \<Longrightarrow> n = m"
proof (induction n arbitrary: m rule: show_nat.induct)
  case (1 n)
  show ?case
  proof (cases "n < 10")
    case n: True
    show ?thesis
    proof (cases "m < 10")
      case True
      with n "1.prems" show ?thesis
        by (simp add: show_nat.simps [of n] show_nat.simps [of m] digit_char_inj)
    next
      case False
      with n "1.prems" show ?thesis
        using show_nat_nonempty [of "m div 10"]
        by (simp add: show_nat.simps [of n] show_nat.simps [of m])
    qed
  next
    case n: False
    show ?thesis
    proof (cases "m < 10")
      case True
      with n "1.prems" show ?thesis
        using show_nat_nonempty [of "n div 10"]
        by (simp add: show_nat.simps [of n] show_nat.simps [of m])
    next
      case False
      with n "1.prems" have eq: "show_nat (n div 10) = show_nat (m div 10)"
        and dg: "digit_char (n mod 10) = digit_char (m mod 10)"
        by (simp_all add: show_nat.simps [of n] show_nat.simps [of m])
      from "1.IH" [OF n eq] have "n div 10 = m div 10" .
      moreover from dg have "n mod 10 = m mod 10" by (intro digit_char_inj) simp_all
      ultimately show ?thesis by (metis div_mult_mod_eq)
    qed
  qed
qed

lemma tail_after_separator:
  assumes "xs @ s # ys = xs' @ s # ys'" and "s \<notin> set ys" and "s \<notin> set ys'"
  shows "ys = ys'"
proof -
  have "rev ys @ s # rev xs = rev ys' @ s # rev xs'"
    using arg_cong [OF assms(1), of rev] by simp
  then have "takeWhile (\<lambda>c. c \<noteq> s) (rev ys @ s # rev xs)
               = takeWhile (\<lambda>c. c \<noteq> s) (rev ys' @ s # rev xs')" by simp
  moreover have "takeWhile (\<lambda>c. c \<noteq> s) (rev ys @ s # rev xs) = rev ys"
    using assms(2) by (subst takeWhile_tail) auto
  moreover have "takeWhile (\<lambda>c. c \<noteq> s) (rev ys' @ s # rev xs') = rev ys'"
    using assms(3) by (subst takeWhile_tail) auto
  ultimately show ?thesis by simp
qed

text \<open>An id determines the counter it was made from.\<close>

lemma step_id_text_counter:
  assumes "step_id_text t c = step_id_text t' c'"
  shows "c = c'"
proof -
  from assms have "show_int t @ CHR ''-'' # show_nat c = show_int t' @ CHR ''-'' # show_nat c'"
    by (simp add: step_id_text_def)
  then have "show_nat c = show_nat c'"
    by (rule tail_after_separator) (rule show_nat_no_minus)+
  then show ?thesis by (rule show_nat_inj)
qed

subsection \<open>What buildSteps and createPlan return\<close>

lemma generateStepId_result:
  "generateStepId clk st
     = (step_id_text (clk (clockReads st)) (stepCounter st + 1),
        st\<lparr>stepCounter := stepCounter st + 1, clockReads := clockReads st + 1\<rparr>)"
  by (simp add: generateStepId_def date_now_def)

lemma fold_make_step:
  "fold (make_step clk intent) ts (ids, sl, st) = (ids', sl', st') \<Longrightarrow>
   (\<exists>new. ids' = ids @ map step_id new \<and> sl' = sl @ new \<and> length new = length ts
      \<and> (\<forall>s \<in> set new. status s = pending \<and> dependencies s = []
            \<and> (\<exists>t c. step_id s = step_id_text t c \<and> stepCounter st < c \<and> c \<le> stepCounter st'))
      \<and> distinct (map step_id new))
   \<and> stepCounter st' = stepCounter st + length ts"
proof (induction ts arbitrary: ids sl st)
  case Nil
  then show ?case by simp
next
  case (Cons a ts)
  let ?sid = "step_id_text (clk (clockReads st)) (stepCounter st + 1)"
  let ?st1 = "st\<lparr>stepCounter := stepCounter st + 1, clockReads := clockReads st + 1\<rparr>"
  obtain s1 where s1: "make_step clk intent a (ids, sl, st) = (ids @ [?sid], sl @ [s1], ?st1)"
    and s1_id: "step_id s1 = ?sid" and s1_st: "status s1 = pending" and s1_dep: "dependencies s1 = []"
    by (simp add: make_step_def generateStepId_result)
  from Cons.prems have run: "fold (make_step clk intent) ts (ids @ [?sid], sl @ [s1], ?st1) = (ids', sl', st')"
    by (simp add: s1)
  from Cons.IH [OF run] obtain new where
    n1: "ids' = (ids @ [?sid]) @ map step_id new" and n2: "sl' = (sl @ [s1]) @ new"
    and n3: "length new = length ts"
    and n4: "\<forall>s \<in> set new. status s = pending \<and> dependencies s = []
            \<and> (\<exists>t c. step_id s = step_id_text t c \<and> stepCounter ?st1 < c \<and> c \<le> stepCounter st')"
    and n5: "distinct (map step_id new)"
    and n6: "stepCounter st' = stepCounter ?st1 + length ts"
    by blast
  have fresh: "?sid \<notin> set (map step_id new)"
  proof
    assume "?sid \<in> set (map step_id new)"
    then obtain s where "s \<in> set new" "step_id s = ?sid" by auto
    with n4 obtain t c where "?sid = step_id_text t c" "stepCounter ?st1 < c" by metis
    then show False using step_id_text_counter [of "clk (clockReads st)" "stepCounter st + 1" t c]
      by simp
  qed
  have a1: "ids' = ids @ map step_id (s1 # new)" using n1 s1_id by simp
  have a2: "sl' = sl @ (s1 # new)" using n2 by simp
  have a3: "length (s1 # new) = length (a # ts)" using n3 by simp
  have a4: "\<forall>s \<in> set (s1 # new). status s = pending \<and> dependencies s = []
            \<and> (\<exists>t c. step_id s = step_id_text t c \<and> stepCounter st < c \<and> c \<le> stepCounter st')"
  proof
    fix s assume "s \<in> set (s1 # new)"
    then consider "s = s1" | "s \<in> set new" by auto
    then show "status s = pending \<and> dependencies s = []
            \<and> (\<exists>t c. step_id s = step_id_text t c \<and> stepCounter st < c \<and> c \<le> stepCounter st')"
    proof cases
      case 1
      have "stepCounter st < stepCounter st + 1 \<and> stepCounter st + 1 \<le> stepCounter st'"
        using n6 by simp
      then show ?thesis using 1 s1_id s1_st s1_dep by blast
    next
      case 2
      with n4 obtain t c where "status s = pending" "dependencies s = []"
        "step_id s = step_id_text t c" "stepCounter ?st1 < c" "c \<le> stepCounter st'" by metis
      then show ?thesis by (intro conjI exI [of _ t] exI [of _ c]) simp_all
    qed
  qed
  have a5: "distinct (map step_id (s1 # new))" using n5 fresh s1_id by simp
  have a6: "stepCounter st' = stepCounter st + length (a # ts)" using n6 by simp
  show ?case using a1 a2 a3 a4 a5 a6 by blast
qed

lemma fill_dependencies_ids [simp]:
  "map step_id (fill_dependencies template ids sl) = map step_id sl"
proof -
  have "map step_id (fill_dependencies template ids sl) = map (step_id \<circ> snd) (enumerate 0 sl)"
    by (simp add: fill_dependencies_def split_beta comp_def)
  also have "\<dots> = map step_id (map snd (enumerate 0 sl))" by (simp only: map_map)
  also have "\<dots> = map step_id sl" by (simp only: map_snd_enumerate)
  finally show ?thesis .
qed

lemma fill_dependencies_status [simp]:
  "map status (fill_dependencies template ids sl) = map status sl"
proof -
  have "map status (fill_dependencies template ids sl) = map (status \<circ> snd) (enumerate 0 sl)"
    by (simp add: fill_dependencies_def split_beta comp_def)
  also have "\<dots> = map status (map snd (enumerate 0 sl))" by (simp only: map_map)
  also have "\<dots> = map status sl" by (simp only: map_snd_enumerate)
  finally show ?thesis .
qed

text \<open>
  The steps of \<open>buildSteps\<close>: pending, with pairwise distinct ids, each id made from a
  counter value above the counter before the call and at most the counter after it.
\<close>

lemma buildSteps_result:
  assumes "buildSteps clk intent template st = (sl, st')"
  shows "length sl = length (template_steps template)
       \<and> (\<forall>s \<in> set sl. status s = pending)
       \<and> distinct (step_ids sl)
       \<and> (\<forall>x \<in> set (step_ids sl). \<exists>t c. x = step_id_text t c \<and> stepCounter st < c
                                        \<and> c \<le> stepCounter st')
       \<and> stepCounter st' = stepCounter st + length (template_steps template)"
proof -
  obtain ids sl0 st0 where run:
    "fold (make_step clk intent) (template_steps template) ([], [], st) = (ids, sl0, st0)"
    by (cases "fold (make_step clk intent) (template_steps template) ([], [], st)")
  from assms have sl: "sl = fill_dependencies template ids sl0" and st': "st' = st0"
    by (simp_all add: buildSteps_def run)
  from fold_make_step [OF run] have
    len: "length sl0 = length (template_steps template)"
    and each: "\<forall>s \<in> set sl0. status s = pending \<and> dependencies s = []
            \<and> (\<exists>t c. step_id s = step_id_text t c \<and> stepCounter st < c \<and> c \<le> stepCounter st0)"
    and dist: "distinct (map step_id sl0)"
    and cnt: "stepCounter st0 = stepCounter st + length (template_steps template)"
    by auto
  have l: "length sl = length sl0"
    by (simp add: sl fill_dependencies_def)
  have "set (map status sl) = set (map status sl0)" by (simp add: sl)
  then have p: "\<forall>s \<in> set sl. status s = pending" using each by (metis (no_types, lifting) image_iff list.set_map)
  have i: "step_ids sl = map step_id sl0" by (simp add: step_ids_def sl)
  have r: "\<forall>x \<in> set (step_ids sl). \<exists>t c. x = step_id_text t c \<and> stepCounter st < c
                                        \<and> c \<le> stepCounter st'"
    using each by (auto simp: i st')
  show ?thesis using l len p dist i r cnt st' by simp
qed

lemma createPlan_steps:
  "plan_steps (fst (createPlan clk intent st))
     = fst (buildSteps clk intent (getPlanTemplate (taskType intent)) st)"
  by (simp add: createPlan_def Let_def split_beta)

lemma createPlan_status: "plan_status (fst (createPlan clk intent st)) = pending"
  by (simp add: createPlan_def Let_def split_beta)

lemma buildSteps_simple:
  assumes "tt \<noteq> ''strategy_generation''" "tt \<noteq> ''content_publish''"
          "tt \<noteq> ''operation_summary''"
  shows "\<exists>s. fst (buildSteps clk intent (getPlanTemplate tt) st) = [s] \<and> dependencies s = []"
  using assms
  by (simp add: getPlanTemplate_def buildSteps_def make_step_def generateStepId_result
        fill_dependencies_def map_get_def)

lemma buildSteps_strategy:
  "fst (buildSteps clk intent (getPlanTemplate ''strategy_generation'') st)
     = [s0, s1, s2, s3] \<Longrightarrow>
   dependencies s0 = [] \<and> dependencies s1 = []
   \<and> dependencies s2 = [step_id s0, step_id s1] \<and> dependencies s3 = [step_id s2]"
  by (auto simp add: getPlanTemplate_def buildSteps_def make_step_def generateStepId_result
        fill_dependencies_def map_get_def id_at_def)

lemma buildSteps_strategy_length:
  "length (fst (buildSteps clk intent (getPlanTemplate ''strategy_generation'') st)) = 4"
  by (simp add: getPlanTemplate_def buildSteps_def make_step_def generateStepId_result
        fill_dependencies_def)

text \<open>Four steps wired as the strategy template wires them sort into three layers.\<close>

lemma topologicalSort_strategy_shape:
  assumes "distinct [step_id s0, step_id s1, step_id s2, step_id s3]"
      and "dependencies s0 = []" "dependencies s1 = []"
      and "dependencies s2 = [step_id s0, step_id s1]" "dependencies s3 = [step_id s2]"
  shows "topologicalSort [s0, s1, s2, s3]
           = Inr [[step_id s0, step_id s1], [step_id s2], [step_id s3]]"
proof -
  from assms(1) have ne: "step_id s0 \<noteq> step_id s1" "step_id s0 \<noteq> step_id s2"
    "step_id s0 \<noteq> step_id s3" "step_id s1 \<noteq> step_id s2" "step_id s1 \<noteq> step_id s3"
    "step_id s2 \<noteq> step_id s3" by auto
  note ne' = ne ne [symmetric]
  show ?thesis
    by (simp add: sort_eval assms(2-) ne')
qed

lemma list_of_length_4:
  assumes "length xs = 4"
  obtains a b c d where "xs = [a, b, c, d]"
proof -
  from assms obtain a b c d where "xs = [a, b, c, d]"
    by (auto simp: numeral_eq_Suc length_Suc_conv)
  then show ?thesis by (rule that)
qed

lemma createPlan_stored:
  "map_get (planStore (snd (createPlan clk intent st))) (plan_id (fst (createPlan clk intent st)))
     = Some (fst (createPlan clk intent st))"
proof -
  have keep: "planStore (fold (\<lambda>step s. s\<lparr>stepIndex := map_set (step_id step) p (stepIndex s)\<rparr>)
                 sl s0) = planStore s0" for sl p and s0 :: "'a orchestrator"
    by (induction sl arbitrary: s0) simp_all
  show ?thesis
    by (simp add: createPlan_def Let_def split_beta keep map_get_def map_of_map_set)
qed

section \<open>Claims about the plan builder\<close>

definition strategy_clock :: clock where
  "strategy_clock k = 1000 + int k"

text \<open>
  C7. For an intent with task type \<open>strategy_generation\<close> the built plan has exactly four
  steps; the first two have no dependencies, the third depends on the first two and the
  fourth on the third; and \<open>topologicalSort\<close> on those steps yields exactly three layers:
  the first two steps, then the third, then the fourth.
\<close>

theorem createPlan_strategy_layers:
  assumes "taskType intent = ''strategy_generation''"
  shows "\<exists>s0 s1 s2 s3.
           plan_steps (fst (createPlan clk intent st)) = [s0, s1, s2, s3]
         \<and> dependencies s0 = [] \<and> dependencies s1 = []
         \<and> dependencies s2 = [step_id s0, step_id s1] \<and> dependencies s3 = [step_id s2]
         \<and> topologicalSort (plan_steps (fst (createPlan clk intent st)))
             = Inr [[step_id s0, step_id s1], [step_id s2], [step_id s3]]"
proof -
  let ?b = "buildSteps clk intent (getPlanTemplate ''strategy_generation'') st"
  have steps: "plan_steps (fst (createPlan clk intent st)) = fst ?b"
    by (simp add: createPlan_steps assms)
  obtain s0 s1 s2 s3 where sl: "fst ?b = [s0, s1, s2, s3]"
    using buildSteps_strategy_length [of clk intent st] by (rule list_of_length_4)
  from buildSteps_strategy [OF sl] have deps: "dependencies s0 = []" "dependencies s1 = []"
    "dependencies s2 = [step_id s0, step_id s1]" "dependencies s3 = [step_id s2]" by simp_all
  have "distinct (step_ids (fst ?b))"
    using buildSteps_result [of clk intent _ st "fst ?b" "snd ?b"] by simp
  then have dist: "distinct [step_id s0, step_id s1, step_id s2, step_id s3]"
    by (simp add: sl step_ids_def)
  from topologicalSort_strategy_shape [OF dist deps]
  show ?thesis using deps by (simp add: steps sl)
qed

theorem createPlan_strategy_layers_witness:
  "taskType (test_intent ''strategy_generation'') = ''strategy_generation''
   \<and> topologicalSort (plan_steps (fst (createPlan strategy_clock
         (test_intent ''strategy_generation'') empty_orchestrator)))
       = Inr [[''step-1000-1'', ''step-1001-2''], [''step-1002-3''], [''step-1003-4'']]"
proof -
  let ?steps = "plan_steps (fst (createPlan strategy_clock
                  (test_intent ''strategy_generation'') empty_orchestrator))"
  have tt: "taskType (test_intent ''strategy_generation'') = ''strategy_generation''"
    by (simp add: test_intent_def)
  have ids: "map step_id ?steps = [''step-1000-1'', ''step-1001-2'', ''step-1002-3'', ''step-1003-4'']"
    by (simp add: createPlan_steps tt getPlanTemplate_def buildSteps_def make_step_def
          generateStepId_result step_id_text_def show_int_def show_nat.simps digit_char_def
          strategy_clock_def empty_orchestrator_def)
  from createPlan_strategy_layers [OF tt, of strategy_clock empty_orchestrator]
  obtain s0 s1 s2 s3 where sl: "?steps = [s0, s1, s2, s3]"
    and ts: "topologicalSort ?steps = Inr [[step_id s0, step_id s1], [step_id s2], [step_id s3]]"
    by blast
  from ids sl have "step_id s0 = ''step-1000-1''" "step_id s1 = ''step-1001-2''"
    "step_id s2 = ''step-1002-3''" "step_id s3 = ''step-1003-4''" by simp_all
  with ts tt show ?thesis by simp
qed

text \<open>
  C8. \<open>createPlan\<close> has no failing branch: for every intent it returns a plan and stores
  it under the plan's id. The plan's status is \<open>pending\<close> and so is the status of every
  step; and for a task type other than \<open>strategy_generation\<close>, \<open>content_publish\<close> and
  \<open>operation_summary\<close> the plan has exactly one step, with an empty dependency list.
\<close>

theorem createPlan_pending:
  "map_get (planStore (snd (createPlan clk intent st))) (plan_id (fst (createPlan clk intent st)))
     = Some (fst (createPlan clk intent st))
   \<and> plan_status (fst (createPlan clk intent st)) = pending
   \<and> (\<forall>s \<in> set (plan_steps (fst (createPlan clk intent st))). status s = pending)
   \<and> (taskType intent \<notin> {''strategy_generation'', ''content_publish'', ''operation_summary''}
        \<longrightarrow> (\<exists>s. plan_steps (fst (createPlan clk intent st)) = [s] \<and> dependencies s = []))"
proof -
  let ?b = "buildSteps clk intent (getPlanTemplate (taskType intent)) st"
  have "\<forall>s \<in> set (fst ?b). status s = pending"
    using buildSteps_result [of clk intent _ st "fst ?b" "snd ?b"] by simp
  moreover have "\<exists>s. fst ?b = [s] \<and> dependencies s = []"
    if "taskType intent \<notin> {''strategy_generation'', ''content_publish'', ''operation_summary''}"
    using that by (intro buildSteps_simple) simp_all
  ultimately show ?thesis
    by (simp only: createPlan_steps createPlan_status createPlan_stored) blast
qed

theorem createPlan_pending_witness:
  "taskType (test_intent ''competitor_analysis'')
     \<notin> {''strategy_generation'', ''content_publish'', ''operation_summary''}
   \<and> plan_status (fst (createPlan strategy_clock (test_intent ''competitor_analysis'')
        empty_orchestrator)) = pending
   \<and> map status (plan_steps (fst (createPlan strategy_clock (test_intent ''competitor_analysis'')
        empty_orchestrator))) = [pending]
   \<and> map dependencies (plan_steps (fst (createPlan strategy_clock
        (test_intent ''competitor_analysis'') empty_orchestrator))) = [[]]"
proof -
  let ?p = "fst (createPlan strategy_clock (test_intent ''competitor_analysis'') empty_orchestrator)"
  have tt: "taskType (test_intent ''competitor_analysis'')
              \<notin> {''strategy_generation'', ''content_publish'', ''operation_summary''}"
    by (simp add: test_intent_def)
  from createPlan_pending [of strategy_clock "test_intent ''competitor_analysis''" empty_orchestrator] tt
  obtain s where "plan_status ?p = pending" "\<forall>s \<in> set (plan_steps ?p). status s = pending"
    "plan_steps ?p = [s]" "dependencies s = []" by blast
  with tt show ?thesis by simp
qed

section \<open>Plan executor (executePlan)\<close>

text \<open>
  The injected executor. It is called with the step object and either returns a value
  or throws (a rejected promise is a throw at the \<^verbatim>\<open>await\<close>). What it throws is one of
  three kinds, after what the \<^verbatim>\<open>catch\<close> block does with it: an \<^verbatim>\<open>Error\<close>, of which the
  block takes \<^verbatim>\<open>error.message\<close>; any other value that \<^verbatim>\<open>String(error)\<close> converts, with the
  text \<^verbatim>\<open>String\<close> gives it (\<^verbatim>\<open>throw 'string error'\<close>); or a value that \<^verbatim>\<open>String(error)\<close>
  cannot convert, such as \<^verbatim>\<open>Object.create(null)\<close>, which has neither \<^verbatim>\<open>toString\<close> nor
  \<^verbatim>\<open>valueOf\<close>: there \<^verbatim>\<open>String\<close> raises a \<^verbatim>\<open>TypeError\<close> inside the \<^verbatim>\<open>catch\<close> block.

  The executor is modelled as a function of the step it is given: it does not write to
  the plan, and it settles. Within one call of \<^verbatim>\<open>executePlan\<close> it is called at most once
  for a step and the steps of a sorted plan have distinct ids, so the outcomes of one
  call are a function of the step whatever else they depend on.
\<close>

datatype thrown = thrown_error string | thrown_other string | thrown_unprintable

datatype 'v exec_outcome = returned 'v | threw thrown

type_synonym 'v step_executor = "'v task_step \<Rightarrow> 'v exec_outcome"

text \<open>
  \<^verbatim>\<open>error instanceof Error ? error.message : String(error)\<close>; \<open>None\<close> when the conversion
  raises.
\<close>

fun thrown_message :: "thrown \<Rightarrow> string option" where
  "thrown_message (thrown_error message) = Some message"
| "thrown_message (thrown_other text) = Some text"
| "thrown_message thrown_unprintable = None"

text \<open>
  \<^verbatim>\<open>stepMap\<close> of \<^verbatim>\<open>executePlan\<close> maps an id to a step object of \<^verbatim>\<open>plan.steps\<close>; writes through
  it are writes to the plan. An object is named by its position in \<^verbatim>\<open>plan.steps\<close>, so the
  map holds positions of that list only.
\<close>

definition step_refs :: "'v task_step list \<Rightarrow> (string, nat) js_map" where
  "step_refs stepList = fold (\<lambda>(i, step). map_set (step_id step) i) (enumerate 0 stepList) []"

text \<open>
  The state of a run: the step objects, the set \<^verbatim>\<open>failedStepIds\<close>, whether a callback's
  promise was rejected, and two records the code does not keep: the ids whose callback
  ran (\<open>callbacks\<close>) and the ids the executor was called for (\<open>executor_calls\<close>), in order.
\<close>

record 'v run_state =
  run_steps :: "'v task_step list"
  failedStepIds :: "string set"
  callbacks :: "string list"
  executor_calls :: "string list"
  rejected :: bool

text \<open>
  The callback of \<^verbatim>\<open>layer.map\<close> for one step id. In the \<^verbatim>\<open>catch\<close> block the status is set
  to \<^verbatim>\<open>failed\<close> first; then the message is computed, and when \<^verbatim>\<open>String(error)\<close> raises,
  the callback ends there with its promise rejected: \<^verbatim>\<open>step.result\<close> is not assigned and
  the id is not added to \<^verbatim>\<open>failedStepIds\<close>. A callback that finds no step object for its
  id is rejected at \<^verbatim>\<open>step.dependencies\<close>.

  The callbacks of a layer are started in the order of the layer and joined by
  \<^verbatim>\<open>Promise.all\<close>; each writes to its own step object and adds its own id to
  \<^verbatim>\<open>failedStepIds\<close>, and the dependencies it tests lie in earlier layers
  (\<open>topologicalSort_layer_independent\<close> below), so the state at the join does not depend
  on the order in which the executor's promises settle. The model runs the callbacks
  one after the other, each to its end. When one of them is rejected, \<^verbatim>\<open>Promise.all\<close> is
  rejected and \<^verbatim>\<open>executePlan\<close> throws at the \<^verbatim>\<open>await\<close>; the other callbacks of that layer
  have been started and still run to their end, and the model gives the state they
  leave.
\<close>

definition run_step ::
  "'v step_executor \<Rightarrow> (string, nat) js_map \<Rightarrow> string \<Rightarrow> 'v run_state \<Rightarrow> 'v run_state" where
  "run_step executor stepMap stepId rs =
     (case map_get stepMap stepId of
        None \<Rightarrow> rs\<lparr>callbacks := callbacks rs @ [stepId], rejected := True\<rparr>
      | Some i \<Rightarrow>
          let step = run_steps rs ! i;
              hasFailedDependency =
                list_ex (\<lambda>depId. depId \<in> failedStepIds rs) (dependencies step)
          in if hasFailedDependency then
               rs\<lparr>run_steps := (run_steps rs)
                      [i := step\<lparr>status := failed,
                                 result := Some (error_result ''Dependency step failed'')\<rparr>],
                  failedStepIds := insert stepId (failedStepIds rs),
                  callbacks := callbacks rs @ [stepId]\<rparr>
             else
               (case executor (step\<lparr>status := running\<rparr>) of
                  returned v \<Rightarrow>
                    rs\<lparr>run_steps := (run_steps rs)
                           [i := step\<lparr>status := completed, result := Some (value_result v)\<rparr>],
                       callbacks := callbacks rs @ [stepId],
                       executor_calls := executor_calls rs @ [stepId]\<rparr>
                | threw t \<Rightarrow>
                    (case thrown_message t of
                       Some message \<Rightarrow>
                         rs\<lparr>run_steps := (run_steps rs)
                                [i := step\<lparr>status := failed,
                                           result := Some (error_result message)\<rparr>],
                            failedStepIds := insert stepId (failedStepIds rs),
                            callbacks := callbacks rs @ [stepId],
                            executor_calls := executor_calls rs @ [stepId]\<rparr>
                     | None \<Rightarrow>
                         rs\<lparr>run_steps := (run_steps rs)[i := step\<lparr>status := failed\<rparr>],
                            callbacks := callbacks rs @ [stepId],
                            executor_calls := executor_calls rs @ [stepId],
                            rejected := True\<rparr>)))"

text \<open>The loop over the layers; a rejected \<^verbatim>\<open>Promise.all\<close> ends it.\<close>

fun run_layers ::
  "'v step_executor \<Rightarrow> (string, nat) js_map \<Rightarrow> string list list \<Rightarrow> 'v run_state \<Rightarrow>
   'v run_state" where
  "run_layers executor stepMap [] rs = rs"
| "run_layers executor stepMap (layer # layers) rs =
     (let rs' = fold (run_step executor stepMap) layer rs
      in if rejected rs' then rs' else run_layers executor stepMap layers rs')"

text \<open>
  What a call reports besides the new state: the error it throws, if any, and the two
  records of the run.
\<close>

record exec_report =
  thrown_by_call :: "error option"
  report_callbacks :: "string list"
  report_executor_calls :: "string list"

text \<open>The state a run starts from, with \<^verbatim>\<open>failedStepIds\<close> empty.\<close>

definition initial_run :: "'v task_step list \<Rightarrow> 'v run_state" where
  "initial_run stepList =
     \<lparr>run_steps = stepList, failedStepIds = {}, callbacks = [], executor_calls = [],
      rejected = False\<rparr>"

text \<open>
  The last statements of \<^verbatim>\<open>executePlan\<close>: \<^verbatim>\<open>completed\<close> when every step is, else
  \<^verbatim>\<open>failed\<close> when some step is, else the status stays as it is.
\<close>

definition update_plan_status :: "'v execution_plan \<Rightarrow> 'v execution_plan" where
  "update_plan_status plan =
     (let hasFailedSteps = list_ex (\<lambda>s. status s = failed) (plan_steps plan);
          allCompleted = list_all (\<lambda>s. status s = completed) (plan_steps plan)
      in if allCompleted then plan\<lparr>plan_status := completed\<rparr>
         else if hasFailedSteps then plan\<lparr>plan_status := failed\<rparr>
         else plan)"

text \<open>
  \<^verbatim>\<open>executePlan\<close>. A rejected callback makes the call throw the error of the rejection
  (a \<^verbatim>\<open>TypeError\<close>) before the plan's status is updated, so the plan stays \<^verbatim>\<open>running\<close>.
\<close>

definition executePlan ::
  "string \<Rightarrow> 'v step_executor \<Rightarrow> 'v orchestrator \<Rightarrow> 'v orchestrator \<times> exec_report" where
  "executePlan planId executor st =
     (case map_get (planStore st) planId of
        None \<Rightarrow>
          (st, \<lparr>thrown_by_call = Some (PlanNotFound planId), report_callbacks = [],
                report_executor_calls = []\<rparr>)
      | Some plan \<Rightarrow>
          let plan1 = plan\<lparr>plan_status := running\<rparr>;
              st1 = st\<lparr>planStore := map_set planId plan1 (planStore st)\<rparr>;
              stepMap = step_refs (plan_steps plan1)
          in (case topologicalSort (plan_steps plan1) of
                Inl e \<Rightarrow>
                  (st1, \<lparr>thrown_by_call = Some e, report_callbacks = [],
                         report_executor_calls = []\<rparr>)
              | Inr layers \<Rightarrow>
                  let rs = run_layers executor stepMap layers (initial_run (plan_steps plan1));
                      plan2 = plan1\<lparr>plan_steps := run_steps rs\<rparr>
                  in if rejected rs then
                       (st1\<lparr>planStore := map_set planId plan2 (planStore st1)\<rparr>,
                        \<lparr>thrown_by_call = Some JsTypeError, report_callbacks = callbacks rs,
                         report_executor_calls = executor_calls rs\<rparr>)
                     else
                       (st1\<lparr>planStore :=
                              map_set planId (update_plan_status plan2) (planStore st1)\<rparr>,
                        \<lparr>thrown_by_call = None, report_callbacks = callbacks rs,
                         report_executor_calls = executor_calls rs\<rparr>)))"

text \<open>The lookup \<^verbatim>\<open>plan.steps.find((s) => s.id === taskId)\<close> of a step by its id.\<close>

definition find_step :: "'v task_step list \<Rightarrow> string \<Rightarrow> 'v task_step option" where
  "find_step stepList taskId = find (\<lambda>s. step_id s = taskId) stepList"

text \<open>
  The ways a callback leaves its step: settled by the dependency check, or by the
  executor's outcome. The executor crashes the callback of a step when it throws, for
  that step marked \<^verbatim>\<open>running\<close>, a value that has no string form.
\<close>

definition cascaded :: "'v task_step \<Rightarrow> 'v task_step" where
  "cascaded s = s\<lparr>status := failed, result := Some (error_result ''Dependency step failed'')\<rparr>"

definition executed :: "'v step_executor \<Rightarrow> 'v task_step \<Rightarrow> 'v task_step" where
  "executed ex s =
     (case ex (s\<lparr>status := running\<rparr>) of
        returned v \<Rightarrow> s\<lparr>status := completed, result := Some (value_result v)\<rparr>
      | threw (thrown_error message) \<Rightarrow>
          s\<lparr>status := failed, result := Some (error_result message)\<rparr>
      | threw (thrown_other text) \<Rightarrow> s\<lparr>status := failed, result := Some (error_result text)\<rparr>
      | threw thrown_unprintable \<Rightarrow> s\<lparr>status := failed\<rparr>)"

definition crashes :: "'v step_executor \<Rightarrow> 'v task_step \<Rightarrow> bool" where
  "crashes ex s \<longleftrightarrow> ex (s\<lparr>status := running\<rparr>) = threw thrown_unprintable"

definition blocked :: "string set \<Rightarrow> 'v task_step \<Rightarrow> bool" where
  "blocked F s \<longleftrightarrow> (\<exists>d \<in> set (dependencies s). d \<in> F)"

text \<open>
  After the callbacks of the ids \<open>done\<close> (in that order), over the steps \<open>sl0\<close> the run
  started from: a step not yet met is untouched; a step met is settled the way its
  dependencies decide, and its dependencies were met before it; a callback was rejected
  iff the executor crashed one.
\<close>

definition run_inv ::
  "'v step_executor \<Rightarrow> 'v task_step list \<Rightarrow> string list \<Rightarrow> 'v run_state \<Rightarrow> bool" where
  "run_inv ex sl0 done rs \<longleftrightarrow>
     length (run_steps rs) = length sl0
   \<and> callbacks rs = done
   \<and> failedStepIds rs \<subseteq> set done
   \<and> distinct (executor_calls rs)
   \<and> set (executor_calls rs) \<subseteq> set done
   \<and> (rejected rs \<longleftrightarrow>
        (\<exists>i < length sl0. step_id (sl0 ! i) \<in> set (executor_calls rs) \<and> crashes ex (sl0 ! i)))
   \<and> (\<forall>i < length sl0.
        (step_id (sl0 ! i) \<notin> set done \<longrightarrow> run_steps rs ! i = sl0 ! i)
      \<and> (step_id (sl0 ! i) \<in> set done \<longrightarrow>
           set (dependencies (sl0 ! i)) \<subseteq> set done
         \<and> run_steps rs ! i = (if blocked (failedStepIds rs) (sl0 ! i) then cascaded (sl0 ! i)
                                else executed ex (sl0 ! i))
         \<and> (step_id (sl0 ! i) \<in> failedStepIds rs
               \<longleftrightarrow> blocked (failedStepIds rs) (sl0 ! i)
                   \<or> status (executed ex (sl0 ! i)) = failed \<and> \<not> crashes ex (sl0 ! i))
         \<and> (step_id (sl0 ! i) \<in> set (executor_calls rs)
               \<longleftrightarrow> \<not> blocked (failedStepIds rs) (sl0 ! i))))"

text \<open>Stores and executors of the examples.\<close>

definition demo_store :: "unit task_step list \<Rightarrow> unit orchestrator" where
  "demo_store stepList =
     \<lparr>planStore = [(''plan-1'', \<lparr>plan_id = ''plan-1'', plan_steps = stepList,
                                 plan_status = pending, createdAt = 0\<rparr>)],
      stepIndex = map (\<lambda>s. (step_id s, ''plan-1'')) stepList,
      planCounter = 1, stepCounter = length stepList, clockReads = 0\<rparr>"

text \<open>\<^verbatim>\<open>async (step) => { if (step.id === sid) throw new Error('boom'); }\<close>\<close>

definition fail_on :: "string \<Rightarrow> unit step_executor" where
  "fail_on sid step = (if step_id step = sid then threw (thrown_error ''boom'') else returned ())"

text \<open>\<^verbatim>\<open>async (step) => { if (step.id === sid) throw Object.create(null); }\<close>\<close>

definition crash_on :: "string \<Rightarrow> unit step_executor" where
  "crash_on sid step = (if step_id step = sid then threw thrown_unprintable else returned ())"

subsection \<open>The members of a layer do not depend on one another\<close>

lemma layered_independent:
  "layered E D layers \<Longrightarrow> distinct (concat layers) \<Longrightarrow> D \<inter> set (concat layers) = {} \<Longrightarrow>
   l \<in> set layers \<Longrightarrow> x \<in> set l \<Longrightarrow> (d, x) \<in> set E \<Longrightarrow> d \<notin> set l"
proof (induction layers arbitrary: D)
  case Nil
  then show ?case by simp
next
  case (Cons a layers)
  from Cons.prems(1) have here: "\<forall>y \<in> set a. \<forall>e \<in> set E. snd e = y \<longrightarrow> fst e \<in> D"
    and rest: "layered E (D \<union> set a) layers" by simp_all
  show ?case
  proof (cases "l = a")
    case True
    with here Cons.prems(5,6) have "d \<in> D" by force
    with Cons.prems(3) True show ?thesis by auto
  next
    case False
    with Cons.prems(4) have l: "l \<in> set layers" by simp
    have d: "distinct (concat layers)" using Cons.prems(2) by simp
    have i: "(D \<union> set a) \<inter> set (concat layers) = {}" using Cons.prems(2,3) by auto
    from Cons.IH [OF rest d i l Cons.prems(5,6)] show ?thesis .
  qed
qed

lemma topologicalSort_layer_independent:
  assumes ts: "topologicalSort stepList = Inr layers" and l: "l \<in> set layers"
      and s: "step \<in> set stepList" and x: "step_id step \<in> set l"
  shows "set (dependencies step) \<inter> set l = {}"
proof -
  from topologicalSort_Inr [OF ts]
  have post: "bfs_post (dep_edges stepList) (set (step_ids stepList)) layers (length stepList)"
    by simp
  then have lay: "layered (dep_edges stepList) {} layers" and d: "distinct (concat layers)"
    by (simp_all add: bfs_post_def)
  have "d' \<notin> set l" if "d' \<in> set (dependencies step)" for d'
  proof -
    have "(d', step_id step) \<in> set (dep_edges stepList)"
      using that s by (auto simp: set_dep_edges)
    from layered_independent [OF lay d _ l x this] show ?thesis by simp
  qed
  then show ?thesis by auto
qed

subsection \<open>One callback\<close>

lemma step_refs_snoc:
  "step_refs (sl @ [s]) = map_set (step_id s) (length sl) (step_refs sl)"
  by (simp add: step_refs_def enumerate_append_eq)

lemma step_refs_lookup:
  "distinct (step_ids sl) \<Longrightarrow> i < length sl \<Longrightarrow>
   map_get (step_refs sl) (step_id (sl ! i)) = Some i"
proof (induction sl arbitrary: i rule: rev_induct)
  case Nil
  then show ?case by simp
next
  case (snoc s sl)
  from snoc.prems(1) have d: "distinct (step_ids sl)" and new: "step_id s \<notin> set (step_ids sl)"
    by (simp_all add: step_ids_def)
  show ?case
  proof (cases "i = length sl")
    case True
    then show ?thesis by (simp add: step_refs_snoc map_get_def map_of_map_set)
  next
    case False
    with snoc.prems(2) have i: "i < length sl" by simp
    then have "step_id (sl ! i) \<in> set (step_ids sl)" by (simp add: step_ids_def)
    with new have "step_id (sl ! i) \<noteq> step_id s" by auto
    then show ?thesis
      using snoc.IH [OF d i] i
      by (simp add: step_refs_snoc map_get_def map_of_map_set nth_append)
  qed
qed

lemma status_cascaded [simp]: "status (cascaded s) = failed"
  by (simp add: cascaded_def)

lemma status_executed: "status (executed ex s) = completed \<or> status (executed ex s) = failed"
  by (simp add: executed_def split: exec_outcome.splits thrown.splits)

lemma crashes_failed: "crashes ex s \<Longrightarrow> status (executed ex s) = failed"
  by (simp add: executed_def crashes_def)

lemma step_id_cascaded [simp]: "step_id (cascaded s) = step_id s"
  by (simp add: cascaded_def)

lemma step_id_executed [simp]: "step_id (executed ex s) = step_id s"
  by (simp add: executed_def split: exec_outcome.splits thrown.splits)

lemma thrown_message_None: "thrown_message t = None \<longleftrightarrow> t = thrown_unprintable"
  by (cases t) simp_all

lemma run_step_fields:
  assumes ref: "map_get sm x = Some k" and at: "run_steps rs ! k = s0"
  shows "run_steps (run_step ex sm x rs)
           = (run_steps rs)[k := if blocked (failedStepIds rs) s0 then cascaded s0
                                 else executed ex s0]"
    and "failedStepIds (run_step ex sm x rs)
           = (if blocked (failedStepIds rs) s0
                 \<or> status (executed ex s0) = failed \<and> \<not> crashes ex s0
              then insert x (failedStepIds rs) else failedStepIds rs)"
    and "callbacks (run_step ex sm x rs) = callbacks rs @ [x]"
    and "executor_calls (run_step ex sm x rs)
           = (if blocked (failedStepIds rs) s0 then executor_calls rs
              else executor_calls rs @ [x])"
    and "rejected (run_step ex sm x rs)
           \<longleftrightarrow> rejected rs \<or> \<not> blocked (failedStepIds rs) s0 \<and> crashes ex s0"
  using assms
  by (auto simp: run_step_def blocked_def list_ex_iff cascaded_def executed_def crashes_def
             Let_def thrown_message_None
           split: exec_outcome.splits thrown.splits option.splits)

subsection \<open>The invariant of a run\<close>

lemma run_inv_step:
  assumes inv: "run_inv ex sl0 done rs"
      and ids: "distinct (step_ids sl0)"
      and k: "k < length sl0" and x: "x = step_id (sl0 ! k)"
      and fresh: "x \<notin> set done"
      and deps: "set (dependencies (sl0 ! k)) \<subseteq> set done"
  shows "run_inv ex sl0 (done @ [x]) (run_step ex (step_refs sl0) x rs)"
proof -
  let ?F = "failedStepIds rs"
  let ?s0 = "sl0 ! k"
  let ?new = "if blocked ?F ?s0 then cascaded ?s0 else executed ex ?s0"
  let ?fails = "\<lambda>F s. blocked F s \<or> status (executed ex s) = failed \<and> \<not> crashes ex s"
  let ?rs' = "run_step ex (step_refs sl0) x rs"
  let ?F' = "failedStepIds ?rs'"
  from inv have len: "length (run_steps rs) = length sl0"
    and cb: "callbacks rs = done" and Fsub: "?F \<subseteq> set done"
    and ecd: "distinct (executor_calls rs)" and ecs: "set (executor_calls rs) \<subseteq> set done"
    and rej: "rejected rs \<longleftrightarrow>
        (\<exists>i < length sl0. step_id (sl0 ! i) \<in> set (executor_calls rs) \<and> crashes ex (sl0 ! i))"
    and untouched: "\<And>i. i < length sl0 \<Longrightarrow> step_id (sl0 ! i) \<notin> set done
                      \<Longrightarrow> run_steps rs ! i = sl0 ! i"
    and met: "\<And>i. i < length sl0 \<Longrightarrow> step_id (sl0 ! i) \<in> set done \<Longrightarrow>
           set (dependencies (sl0 ! i)) \<subseteq> set done
         \<and> run_steps rs ! i = (if blocked ?F (sl0 ! i) then cascaded (sl0 ! i)
                                else executed ex (sl0 ! i))
         \<and> (step_id (sl0 ! i) \<in> ?F \<longleftrightarrow> ?fails ?F (sl0 ! i))
         \<and> (step_id (sl0 ! i) \<in> set (executor_calls rs) \<longleftrightarrow> \<not> blocked ?F (sl0 ! i))"
    by (simp_all add: run_inv_def)
  have ref: "map_get (step_refs sl0) x = Some k"
    using step_refs_lookup [OF ids k] by (simp add: x)
  have at: "run_steps rs ! k = ?s0"
    using untouched [OF k] fresh by (simp add: x)
  note f = run_step_fields [OF ref at, of ex]
  have steps': "run_steps ?rs' = (run_steps rs)[k := ?new]" by (rule f(1))
  have F': "?F' = (if ?fails ?F ?s0 then insert x ?F else ?F)" by (rule f(2))
  have cb': "callbacks ?rs' = done @ [x]" by (simp add: f(3) cb)
  have ec': "executor_calls ?rs' = (if blocked ?F ?s0 then executor_calls rs
                                     else executor_calls rs @ [x])" by (rule f(4))
  have rej': "rejected ?rs' \<longleftrightarrow> rejected rs \<or> \<not> blocked ?F ?s0 \<and> crashes ex ?s0" by (rule f(5))
  have xF: "x \<notin> ?F" using Fsub fresh by auto
  have xec: "x \<notin> set (executor_calls rs)" using ecs fresh by auto
  have stable: "blocked ?F' s = blocked ?F s" if "set (dependencies s) \<subseteq> set done" for s
    using that fresh by (auto simp: blocked_def F')
  have other: "step_id (sl0 ! i) \<noteq> x" if "i < length sl0" "i \<noteq> k" for i
    using that ids k nth_eq_iff_index_eq [of "step_ids sl0" i k]
    by (simp add: x step_ids_def)
  have a4: "?F' \<subseteq> set (done @ [x])" using Fsub by (auto simp: F')
  have a5: "distinct (executor_calls ?rs')" using ecd xec by (simp add: ec')
  have a6: "set (executor_calls ?rs') \<subseteq> set (done @ [x])" using ecs by (auto simp: ec')
  have a8: "rejected ?rs' \<longleftrightarrow>
        (\<exists>i < length sl0. step_id (sl0 ! i) \<in> set (executor_calls ?rs') \<and> crashes ex (sl0 ! i))"
  proof (cases "blocked ?F ?s0")
    case True
    then show ?thesis by (simp add: rej' ec' rej)
  next
    case False
    have "(\<exists>i < length sl0. step_id (sl0 ! i) \<in> set (executor_calls rs @ [x])
                \<and> crashes ex (sl0 ! i))
          \<longleftrightarrow> rejected rs \<or> crashes ex ?s0"
    proof
      assume "\<exists>i < length sl0. step_id (sl0 ! i) \<in> set (executor_calls rs @ [x])
                \<and> crashes ex (sl0 ! i)"
      then obtain i where i: "i < length sl0"
        and m: "step_id (sl0 ! i) \<in> set (executor_calls rs) \<or> step_id (sl0 ! i) = x"
        and c: "crashes ex (sl0 ! i)" by auto
      show "rejected rs \<or> crashes ex ?s0"
      proof (cases "i = k")
        case True
        with c show ?thesis by simp
      next
        case False
        from other [OF i False] m have "step_id (sl0 ! i) \<in> set (executor_calls rs)" by simp
        with i c rej show ?thesis by blast
      qed
    next
      assume "rejected rs \<or> crashes ex ?s0"
      then show "\<exists>i < length sl0. step_id (sl0 ! i) \<in> set (executor_calls rs @ [x])
                \<and> crashes ex (sl0 ! i)"
      proof
        assume "rejected rs"
        with rej obtain i where "i < length sl0"
          "step_id (sl0 ! i) \<in> set (executor_calls rs)" "crashes ex (sl0 ! i)" by blast
        then show ?thesis by auto
      next
        assume "crashes ex ?s0"
        with k x show ?thesis by auto
      qed
    qed
    with False show ?thesis by (simp add: rej' ec')
  qed
  have a7: "(step_id (sl0 ! i) \<notin> set (done @ [x]) \<longrightarrow> run_steps ?rs' ! i = sl0 ! i)
      \<and> (step_id (sl0 ! i) \<in> set (done @ [x]) \<longrightarrow>
           set (dependencies (sl0 ! i)) \<subseteq> set (done @ [x])
         \<and> run_steps ?rs' ! i = (if blocked ?F' (sl0 ! i) then cascaded (sl0 ! i)
                                else executed ex (sl0 ! i))
         \<and> (step_id (sl0 ! i) \<in> ?F' \<longleftrightarrow> ?fails ?F' (sl0 ! i))
         \<and> (step_id (sl0 ! i) \<in> set (executor_calls ?rs')
               \<longleftrightarrow> \<not> blocked ?F' (sl0 ! i)))"
    if i: "i < length sl0" for i
  proof (cases "i = k")
    case True
    have n: "run_steps ?rs' ! k = ?new" using k len by (simp add: steps')
    have b: "blocked ?F' ?s0 = blocked ?F ?s0" by (rule stable [OF deps])
    have "set (dependencies ?s0) \<subseteq> set (done @ [x])" using deps by auto
    moreover have "run_steps ?rs' ! k = (if blocked ?F' ?s0 then cascaded ?s0
                                         else executed ex ?s0)"
      by (simp add: n b)
    moreover have "x \<in> ?F' \<longleftrightarrow> ?fails ?F' ?s0"
      using xF by (simp add: b) (simp add: F')
    moreover have "x \<in> set (executor_calls ?rs') \<longleftrightarrow> \<not> blocked ?F' ?s0"
      using xec by (simp add: b ec')
    ultimately show ?thesis by (simp add: True x [symmetric])
  next
    case False
    have ne: "step_id (sl0 ! i) \<noteq> x" by (rule other [OF i False])
    have same: "run_steps ?rs' ! i = run_steps rs ! i" using False by (simp add: steps')
    show ?thesis
    proof (cases "step_id (sl0 ! i) \<in> set done")
      case True
      note m = met [OF i True]
      from m have d: "set (dependencies (sl0 ! i)) \<subseteq> set done" by simp
      have b: "blocked ?F' (sl0 ! i) = blocked ?F (sl0 ! i)" by (rule stable [OF d])
      have "step_id (sl0 ! i) \<in> ?F' \<longleftrightarrow> step_id (sl0 ! i) \<in> ?F" using ne by (simp add: F')
      moreover have "step_id (sl0 ! i) \<in> set (executor_calls ?rs')
                       \<longleftrightarrow> step_id (sl0 ! i) \<in> set (executor_calls rs)"
        using ne by (simp add: ec')
      ultimately show ?thesis using m d True by (simp add: same b) blast
    next
      case False
      then show ?thesis using untouched [OF i False] ne by (simp add: same)
    qed
  qed
  show ?thesis
    unfolding run_inv_def
    using len cb' a4 a5 a6 a7 a8 by (simp add: steps')
qed

lemma run_inv_layer:
  assumes ids: "distinct (step_ids sl0)"
  shows "run_inv ex sl0 done rs \<Longrightarrow> distinct l \<Longrightarrow> set l \<inter> set done = {} \<Longrightarrow>
         (\<forall>x \<in> set l. \<exists>k < length sl0. x = step_id (sl0 ! k)
                         \<and> set (dependencies (sl0 ! k)) \<subseteq> set done) \<Longrightarrow>
         run_inv ex sl0 (done @ l) (fold (run_step ex (step_refs sl0)) l rs)"
proof (induction l arbitrary: "done" rs)
  case Nil
  then show ?case by simp
next
  case (Cons x l)
  from Cons.prems(4) obtain k where k: "k < length sl0" "x = step_id (sl0 ! k)"
    "set (dependencies (sl0 ! k)) \<subseteq> set done" by auto
  from Cons.prems(3) have fresh: "x \<notin> set done" by auto
  have inv1: "run_inv ex sl0 (done @ [x]) (run_step ex (step_refs sl0) x rs)"
    by (rule run_inv_step [OF Cons.prems(1) ids k(1,2) fresh k(3)])
  have d: "distinct l" using Cons.prems(2) by simp
  have i: "set l \<inter> set (done @ [x]) = {}" using Cons.prems(2,3) by auto
  have p: "\<forall>y \<in> set l. \<exists>k < length sl0. y = step_id (sl0 ! k)
                         \<and> set (dependencies (sl0 ! k)) \<subseteq> set (done @ [x])"
    using Cons.prems(4) by fastforce
  from Cons.IH [OF inv1 d i p] show ?case by simp
qed

text \<open>
  The loop over the layers ends after all of them, or after the first layer with a
  rejected callback.
\<close>

lemma run_inv_layers:
  assumes ids: "distinct (step_ids sl0)"
  shows "run_inv ex sl0 done rs \<Longrightarrow> distinct (done @ concat layers) \<Longrightarrow>
         set (concat layers) \<subseteq> set (step_ids sl0) \<Longrightarrow>
         layered (dep_edges sl0) (set done) layers \<Longrightarrow>
         \<exists>n \<le> length layers.
            run_inv ex sl0 (done @ concat (take n layers))
              (run_layers ex (step_refs sl0) layers rs)
          \<and> (n < length layers \<longrightarrow> rejected (run_layers ex (step_refs sl0) layers rs))"
proof (induction layers arbitrary: "done" rs)
  case Nil
  then show ?case by simp
next
  case (Cons l layers)
  from Cons.prems(4) have
    here: "\<forall>x \<in> set l. \<forall>e \<in> set (dep_edges sl0). snd e = x \<longrightarrow> fst e \<in> set done"
    and rest: "layered (dep_edges sl0) (set (done @ l)) layers" by simp_all
  have dl: "distinct l" and il: "set l \<inter> set done = {}" using Cons.prems(2) by auto
  have pl: "\<forall>x \<in> set l. \<exists>k < length sl0. x = step_id (sl0 ! k)
                         \<and> set (dependencies (sl0 ! k)) \<subseteq> set done"
  proof
    fix x assume xl: "x \<in> set l"
    with Cons.prems(3) have "x \<in> set (step_ids sl0)" by auto
    then obtain k where k: "k < length sl0" "x = step_id (sl0 ! k)"
      by (auto simp: step_ids_def in_set_conv_nth)
    have "d \<in> set done" if "d \<in> set (dependencies (sl0 ! k))" for d
    proof -
      have "(d, x) \<in> set (dep_edges sl0)"
        using that k by (auto simp: set_dep_edges)
      with here xl show ?thesis by force
    qed
    with k show "\<exists>k < length sl0. x = step_id (sl0 ! k)
                         \<and> set (dependencies (sl0 ! k)) \<subseteq> set done" by blast
  qed
  let ?rs' = "fold (run_step ex (step_refs sl0)) l rs"
  have inv1: "run_inv ex sl0 (done @ l) ?rs'"
    by (rule run_inv_layer [OF ids Cons.prems(1) dl il pl])
  show ?case
  proof (cases "rejected ?rs'")
    case True
    then have "run_layers ex (step_refs sl0) (l # layers) rs = ?rs'" by simp
    with inv1 True have "run_inv ex sl0 (done @ concat (take 1 (l # layers)))
              (run_layers ex (step_refs sl0) (l # layers) rs)
          \<and> (1 < length (l # layers)
                \<longrightarrow> rejected (run_layers ex (step_refs sl0) (l # layers) rs))"
      by simp
    moreover have "(1::nat) \<le> length (l # layers)" by simp
    ultimately show ?thesis by blast
  next
    case False
    then have run: "run_layers ex (step_refs sl0) (l # layers) rs
                      = run_layers ex (step_refs sl0) layers ?rs'" by simp
    have d2: "distinct ((done @ l) @ concat layers)" using Cons.prems(2) by simp
    have s2: "set (concat layers) \<subseteq> set (step_ids sl0)" using Cons.prems(3) by simp
    from Cons.IH [OF inv1 d2 s2 rest] obtain n where n: "n \<le> length layers"
      "run_inv ex sl0 ((done @ l) @ concat (take n layers))
         (run_layers ex (step_refs sl0) layers ?rs')"
      "n < length layers \<longrightarrow> rejected (run_layers ex (step_refs sl0) layers ?rs')"
      by blast
    then have "Suc n \<le> length (l # layers)
       \<and> run_inv ex sl0 (done @ concat (take (Suc n) (l # layers)))
              (run_layers ex (step_refs sl0) (l # layers) rs)
       \<and> (Suc n < length (l # layers)
                \<longrightarrow> rejected (run_layers ex (step_refs sl0) (l # layers) rs))"
      by (simp only: run) simp
    then show ?thesis by blast
  qed
qed

lemma run_inv_initial: "run_inv ex sl0 [] (initial_run sl0)"
  by (simp add: run_inv_def initial_run_def)

text \<open>The run of a step list that \<open>topologicalSort\<close> accepted.\<close>

lemma run_inv_sorted:
  assumes ts: "topologicalSort sl0 = Inr layers"
  shows "\<exists>n \<le> length layers.
            run_inv ex sl0 (concat (take n layers))
              (run_layers ex (step_refs sl0) layers (initial_run sl0))
          \<and> (n < length layers
               \<longrightarrow> rejected (run_layers ex (step_refs sl0) layers (initial_run sl0)))"
proof -
  from topologicalSort_Inr [OF ts]
  have post: "bfs_post (dep_edges sl0) (set (step_ids sl0)) layers (length sl0)" by simp
  from bfs_post_partition [OF post] have ids: "distinct (step_ids sl0)"
    and d: "distinct (concat layers)" and s: "set (concat layers) = set (step_ids sl0)"
    by simp_all
  from post have lay: "layered (dep_edges sl0) {} layers" by (simp add: bfs_post_def)
  from run_inv_layers [OF ids run_inv_initial, of layers ex] d s lay show ?thesis by simp
qed

subsection \<open>What executePlan returns\<close>

lemma map_set_twice: "map_set k w (map_set k w' m) = map_set k w m"
  by (simp add: map_set_def)

lemma map_get_map_set: "map_get (map_set k w m) k = Some w"
  by (simp add: map_get_def map_of_map_set)

lemma executePlan_sort_error:
  assumes "map_get (planStore st) planId = Some plan"
      and "topologicalSort (plan_steps plan) = Inl e"
  shows "executePlan planId ex st
           = (st\<lparr>planStore := map_set planId (plan\<lparr>plan_status := running\<rparr>) (planStore st)\<rparr>,
              \<lparr>thrown_by_call = Some e, report_callbacks = [], report_executor_calls = []\<rparr>)"
  using assms by (simp add: executePlan_def)

text \<open>
  For a plan that \<open>topologicalSort\<close> accepts, the run ends after \<open>n\<close> layers; the call
  throws when a callback was rejected, and else updates the plan's status.
\<close>

lemma executePlan_sorted:
  assumes stored: "map_get (planStore st) planId = Some plan"
      and ts: "topologicalSort (plan_steps plan) = Inr layers"
  shows "\<exists>rs n. n \<le> length layers
         \<and> run_inv ex (plan_steps plan) (concat (take n layers)) rs
         \<and> (n < length layers \<longrightarrow> rejected rs)
         \<and> executePlan planId ex st
             = (if rejected rs then
                  (st\<lparr>planStore :=
                        map_set planId (plan\<lparr>plan_status := running, plan_steps := run_steps rs\<rparr>)
                          (planStore st)\<rparr>,
                   \<lparr>thrown_by_call = Some JsTypeError, report_callbacks = callbacks rs,
                    report_executor_calls = executor_calls rs\<rparr>)
                else
                  (st\<lparr>planStore :=
                        map_set planId
                          (update_plan_status (plan\<lparr>plan_status := running,
                                                     plan_steps := run_steps rs\<rparr>))
                          (planStore st)\<rparr>,
                   \<lparr>thrown_by_call = None, report_callbacks = callbacks rs,
                    report_executor_calls = executor_calls rs\<rparr>))"
proof -
  let ?rs = "run_layers ex (step_refs (plan_steps plan)) layers (initial_run (plan_steps plan))"
  from run_inv_sorted [OF ts, of ex] obtain n where n: "n \<le> length layers"
    "run_inv ex (plan_steps plan) (concat (take n layers)) ?rs"
    "n < length layers \<longrightarrow> rejected ?rs" by blast
  have "executePlan planId ex st
             = (if rejected ?rs then
                  (st\<lparr>planStore :=
                        map_set planId (plan\<lparr>plan_status := running, plan_steps := run_steps ?rs\<rparr>)
                          (planStore st)\<rparr>,
                   \<lparr>thrown_by_call = Some JsTypeError, report_callbacks = callbacks ?rs,
                    report_executor_calls = executor_calls ?rs\<rparr>)
                else
                  (st\<lparr>planStore :=
                        map_set planId
                          (update_plan_status (plan\<lparr>plan_status := running,
                                                     plan_steps := run_steps ?rs\<rparr>))
                          (planStore st)\<rparr>,
                   \<lparr>thrown_by_call = None, report_callbacks = callbacks ?rs,
                    report_executor_calls = executor_calls ?rs\<rparr>))"
    using stored ts by (simp add: executePlan_def Let_def map_set_twice)
  with n show ?thesis by blast
qed

text \<open>A run in which no callback was rejected has met every layer.\<close>

lemma executePlan_sorted_normal:
  assumes stored: "map_get (planStore st) planId = Some plan"
      and ts: "topologicalSort (plan_steps plan) = Inr layers"
      and normal: "thrown_by_call (snd (executePlan planId ex st)) = None"
  shows "\<exists>rs. run_inv ex (plan_steps plan) (concat layers) rs \<and> \<not> rejected rs
         \<and> executePlan planId ex st
             = (st\<lparr>planStore :=
                      map_set planId
                        (update_plan_status (plan\<lparr>plan_status := running,
                                                   plan_steps := run_steps rs\<rparr>))
                        (planStore st)\<rparr>,
                \<lparr>thrown_by_call = None, report_callbacks = concat layers,
                 report_executor_calls = executor_calls rs\<rparr>)"
proof -
  from executePlan_sorted [OF stored ts, of ex] obtain rs n where n: "n \<le> length layers"
    and inv: "run_inv ex (plan_steps plan) (concat (take n layers)) rs"
    and stop: "n < length layers \<longrightarrow> rejected rs"
    and run: "executePlan planId ex st
             = (if rejected rs then
                  (st\<lparr>planStore :=
                        map_set planId (plan\<lparr>plan_status := running, plan_steps := run_steps rs\<rparr>)
                          (planStore st)\<rparr>,
                   \<lparr>thrown_by_call = Some JsTypeError, report_callbacks = callbacks rs,
                    report_executor_calls = executor_calls rs\<rparr>)
                else
                  (st\<lparr>planStore :=
                        map_set planId
                          (update_plan_status (plan\<lparr>plan_status := running,
                                                     plan_steps := run_steps rs\<rparr>))
                          (planStore st)\<rparr>,
                   \<lparr>thrown_by_call = None, report_callbacks = callbacks rs,
                    report_executor_calls = executor_calls rs\<rparr>))"
    by blast
  have nrej: "\<not> rejected rs"
  proof
    assume "rejected rs"
    with run normal show False by simp
  qed
  with stop n have "n = length layers" by simp
  with inv have inv': "run_inv ex (plan_steps plan) (concat layers) rs" by simp
  then have "callbacks rs = concat layers" by (simp add: run_inv_def)
  with run nrej inv' show ?thesis by auto
qed

text \<open>
  When every id has been met and no callback was rejected, every step is settled, and
  \<^verbatim>\<open>failedStepIds\<close> holds the ids of the steps that are \<open>failed\<close>.
\<close>

lemma run_inv_final:
  assumes inv: "run_inv ex sl0 done rs" and all: "set (step_ids sl0) \<subseteq> set done"
      and nrej: "\<not> rejected rs" and i: "i < length sl0"
  shows "run_steps rs ! i = (if blocked (failedStepIds rs) (sl0 ! i) then cascaded (sl0 ! i)
                             else executed ex (sl0 ! i))"
    and "step_id (sl0 ! i) \<in> failedStepIds rs \<longleftrightarrow> status (run_steps rs ! i) = failed"
    and "step_id (sl0 ! i) \<in> set (executor_calls rs) \<longleftrightarrow> \<not> blocked (failedStepIds rs) (sl0 ! i)"
    and "step_id (run_steps rs ! i) = step_id (sl0 ! i)"
    and "status (run_steps rs ! i) = completed \<or> status (run_steps rs ! i) = failed"
    and "\<not> blocked (failedStepIds rs) (sl0 ! i) \<Longrightarrow> \<not> crashes ex (sl0 ! i)"
proof -
  have "step_id (sl0 ! i) \<in> set done" using all i by (auto simp: step_ids_def)
  with inv i have m: "run_steps rs ! i = (if blocked (failedStepIds rs) (sl0 ! i)
                              then cascaded (sl0 ! i) else executed ex (sl0 ! i))"
    "step_id (sl0 ! i) \<in> failedStepIds rs
       \<longleftrightarrow> blocked (failedStepIds rs) (sl0 ! i)
           \<or> status (executed ex (sl0 ! i)) = failed \<and> \<not> crashes ex (sl0 ! i)"
    "step_id (sl0 ! i) \<in> set (executor_calls rs) \<longleftrightarrow> \<not> blocked (failedStepIds rs) (sl0 ! i)"
    by (simp_all add: run_inv_def)
  from inv nrej have
    "\<not> (\<exists>j < length sl0. step_id (sl0 ! j) \<in> set (executor_calls rs) \<and> crashes ex (sl0 ! j))"
    by (simp add: run_inv_def)
  with i m(3) have nc: "\<not> blocked (failedStepIds rs) (sl0 ! i) \<Longrightarrow> \<not> crashes ex (sl0 ! i)"
    by blast
  show "run_steps rs ! i = (if blocked (failedStepIds rs) (sl0 ! i) then cascaded (sl0 ! i)
                             else executed ex (sl0 ! i))" by (rule m(1))
  show "step_id (sl0 ! i) \<in> failedStepIds rs \<longleftrightarrow> status (run_steps rs ! i) = failed"
    using nc by (auto simp: m(1,2))
  show "step_id (sl0 ! i) \<in> set (executor_calls rs) \<longleftrightarrow> \<not> blocked (failedStepIds rs) (sl0 ! i)"
    by (rule m(3))
  show "step_id (run_steps rs ! i) = step_id (sl0 ! i)" by (simp add: m(1))
  show "status (run_steps rs ! i) = completed \<or> status (run_steps rs ! i) = failed"
    using status_executed [of ex "sl0 ! i"] by (simp add: m(1))
  show "\<not> blocked (failedStepIds rs) (sl0 ! i) \<Longrightarrow> \<not> crashes ex (sl0 ! i)" by (rule nc)
qed

lemma run_inv_final_ids:
  assumes inv: "run_inv ex sl0 done rs" and all: "set (step_ids sl0) \<subseteq> set done"
      and nrej: "\<not> rejected rs"
  shows "step_ids (run_steps rs) = step_ids sl0"
proof -
  from inv have len: "length (run_steps rs) = length sl0" by (simp add: run_inv_def)
  show ?thesis
    unfolding step_ids_def
    by (rule nth_equalityI) (simp_all add: len run_inv_final(4) [OF inv all nrej])
qed

lemma run_inv_final_settled:
  assumes inv: "run_inv ex sl0 done rs" and all: "set (step_ids sl0) \<subseteq> set done"
      and nrej: "\<not> rejected rs"
  shows "\<forall>s \<in> set (run_steps rs). status s = completed \<or> status s = failed"
proof
  fix s assume "s \<in> set (run_steps rs)"
  then obtain i where "i < length (run_steps rs)" "run_steps rs ! i = s"
    by (auto simp: in_set_conv_nth)
  moreover from inv have "length (run_steps rs) = length sl0" by (simp add: run_inv_def)
  ultimately show "status s = completed \<or> status s = failed"
    using run_inv_final(5) [OF inv all nrej, of i] by auto
qed

lemma update_plan_status_settled:
  assumes "\<forall>s \<in> set (plan_steps p). status s = completed \<or> status s = failed"
  shows "plan_steps (update_plan_status p) = plan_steps p"
    and "plan_status (update_plan_status p) = completed
           \<longleftrightarrow> (\<forall>s \<in> set (plan_steps p). status s = completed)"
    and "plan_status (update_plan_status p) = failed
           \<longleftrightarrow> (\<exists>s \<in> set (plan_steps p). status s = failed)"
proof -
  show "plan_steps (update_plan_status p) = plan_steps p"
    by (simp add: update_plan_status_def Let_def)
  show "plan_status (update_plan_status p) = completed
           \<longleftrightarrow> (\<forall>s \<in> set (plan_steps p). status s = completed)"
    using assms by (auto simp: update_plan_status_def Let_def list_all_iff list_ex_iff)
  show "plan_status (update_plan_status p) = failed
           \<longleftrightarrow> (\<exists>s \<in> set (plan_steps p). status s = failed)"
    using assms by (auto simp: update_plan_status_def Let_def list_all_iff list_ex_iff)
qed

lemma count_list_distinct: "distinct xs \<Longrightarrow> count_list xs x = (if x \<in> set xs then 1 else 0)"
  by (induction xs) auto

subsection \<open>Runs of the examples\<close>

lemmas exec_eval =
  executePlan_def demo_store_def fail_on_def crash_on_def step_refs_def run_step_def
  initial_run_def update_plan_status_def

lemma chain_run_fail_a:
  "executePlan ''plan-1'' (fail_on ''a'') (demo_store chain_steps)
     = (\<lparr>planStore =
           [(''plan-1'',
             \<lparr>plan_id = ''plan-1'',
              plan_steps =
                [(plain_step ''a'' [])\<lparr>status := failed, result := Some (error_result ''boom'')\<rparr>,
                 (plain_step ''b'' [''a''])
                   \<lparr>status := failed, result := Some (error_result ''Dependency step failed'')\<rparr>,
                 (plain_step ''c'' [''b''])
                   \<lparr>status := failed, result := Some (error_result ''Dependency step failed'')\<rparr>],
              plan_status = failed, createdAt = 0\<rparr>)],
         stepIndex = [(''a'', ''plan-1''), (''b'', ''plan-1''), (''c'', ''plan-1'')],
         planCounter = 1, stepCounter = 3, clockReads = 0\<rparr>,
        \<lparr>thrown_by_call = None, report_callbacks = [''a'', ''b'', ''c''],
         report_executor_calls = [''a'']\<rparr>)"
  by (simp add: exec_eval sort_eval chain_steps_def plain_step_def)

lemma cycle_run:
  "executePlan ''plan-1'' (fail_on ''a'') (demo_store cycle_steps)
     = (\<lparr>planStore =
           [(''plan-1'', \<lparr>plan_id = ''plan-1'', plan_steps = cycle_steps,
                          plan_status = running, createdAt = 0\<rparr>)],
         stepIndex = [(''a'', ''plan-1''), (''b'', ''plan-1'')],
         planCounter = 1, stepCounter = 2, clockReads = 0\<rparr>,
        \<lparr>thrown_by_call = Some CircularDependency, report_callbacks = [],
         report_executor_calls = []\<rparr>)"
  by (simp add: exec_eval sort_eval cycle_steps_def plain_step_def)

lemma demo_store_lookup:
  "map_get (planStore (demo_store sl)) ''plan-1''
     = Some \<lparr>plan_id = ''plan-1'', plan_steps = sl, plan_status = pending, createdAt = 0\<rparr>"
  by (simp add: demo_store_def map_get_def)

section \<open>Claims about executePlan\<close>

text \<open>
  C3. For every stored plan and every executor, after \<open>executePlan\<close> returns normally
  (which it does only for a plan whose dependency graph \<open>topologicalSort\<close> accepts): the
  stored plan holds the same step ids, no step is left \<open>pending\<close> or \<open>running\<close>, the
  plan's status is \<open>completed\<close> iff every step's status is \<open>completed\<close>, and it is
  \<open>failed\<close> iff at least one step's status is \<open>failed\<close>.
\<close>

theorem executePlan_settles:
  assumes stored: "map_get (planStore st) planId = Some plan"
      and normal: "thrown_by_call (snd (executePlan planId executor st)) = None"
  shows "\<exists>plan'. map_get (planStore (fst (executePlan planId executor st))) planId = Some plan'
           \<and> step_ids (plan_steps plan') = step_ids (plan_steps plan)
           \<and> (\<forall>s \<in> set (plan_steps plan'). status s \<noteq> pending \<and> status s \<noteq> running)
           \<and> (plan_status plan' = completed
                 \<longleftrightarrow> (\<forall>s \<in> set (plan_steps plan'). status s = completed))
           \<and> (plan_status plan' = failed
                 \<longleftrightarrow> (\<exists>s \<in> set (plan_steps plan'). status s = failed))"
proof (cases "topologicalSort (plan_steps plan)")
  case (Inl e)
  from executePlan_sort_error [OF stored Inl, of executor] normal show ?thesis by simp
next
  case (Inr layers)
  from executePlan_sorted_normal [OF stored Inr normal] obtain rs where
    inv: "run_inv executor (plan_steps plan) (concat layers) rs"
    and nrej: "\<not> rejected rs"
    and run: "executePlan planId executor st
             = (st\<lparr>planStore :=
                      map_set planId
                        (update_plan_status (plan\<lparr>plan_status := running,
                                                   plan_steps := run_steps rs\<rparr>))
                        (planStore st)\<rparr>,
                \<lparr>thrown_by_call = None, report_callbacks = concat layers,
                 report_executor_calls = executor_calls rs\<rparr>)"
    by blast
  let ?p2 = "plan\<lparr>plan_status := running, plan_steps := run_steps rs\<rparr>"
  let ?p3 = "update_plan_status ?p2"
  from topologicalSort_Inr [OF Inr] bfs_post_partition
  have all: "set (step_ids (plan_steps plan)) \<subseteq> set (concat layers)" by blast
  have settled: "\<forall>s \<in> set (plan_steps ?p2). status s = completed \<or> status s = failed"
    using run_inv_final_settled [OF inv all nrej] by simp
  note u = update_plan_status_settled [OF settled]
  have "map_get (planStore (fst (executePlan planId executor st))) planId = Some ?p3"
    by (simp add: run map_get_map_set)
  moreover have "step_ids (plan_steps ?p3) = step_ids (plan_steps plan)"
    using run_inv_final_ids [OF inv all nrej] by (simp add: u(1))
  moreover have "\<forall>s \<in> set (plan_steps ?p3). status s \<noteq> pending \<and> status s \<noteq> running"
    using settled by (auto simp: u(1))
  moreover have "plan_status ?p3 = completed
                 \<longleftrightarrow> (\<forall>s \<in> set (plan_steps ?p3). status s = completed)"
    by (simp only: u)
  moreover have "plan_status ?p3 = failed
                 \<longleftrightarrow> (\<exists>s \<in> set (plan_steps ?p3). status s = failed)"
    by (simp only: u)
  ultimately show ?thesis by blast
qed

theorem executePlan_settles_witness:
  "map_get (planStore (demo_store chain_steps)) ''plan-1''
     = Some \<lparr>plan_id = ''plan-1'', plan_steps = chain_steps, plan_status = pending,
             createdAt = 0\<rparr>
   \<and> thrown_by_call (snd (executePlan ''plan-1'' (fail_on ''a'') (demo_store chain_steps))) = None
   \<and> (\<exists>plan'. map_get (planStore (fst (executePlan ''plan-1'' (fail_on ''a'')
                   (demo_store chain_steps)))) ''plan-1'' = Some plan'
         \<and> map status (plan_steps plan') = [failed, failed, failed]
         \<and> plan_status plan' = failed)"
proof -
  have n: "thrown_by_call (snd (executePlan ''plan-1'' (fail_on ''a'') (demo_store chain_steps)))
             = None"
    by (simp add: chain_run_fail_a)
  from executePlan_settles [OF demo_store_lookup n] obtain plan' where
    p: "map_get (planStore (fst (executePlan ''plan-1'' (fail_on ''a'')
          (demo_store chain_steps)))) ''plan-1'' = Some plan'"
    and f: "plan_status plan' = failed \<longleftrightarrow> (\<exists>s \<in> set (plan_steps plan'). status s = failed)"
    by (elim exE conjE)
  from p have st: "map status (plan_steps plan') = [failed, failed, failed]"
    by (auto simp: chain_run_fail_a map_get_def)
  then have "\<exists>s \<in> set (plan_steps plan'). status s = failed"
    by (metis list.set_intros(1) list.set_map image_iff)
  with f have ps: "plan_status plan' = failed" by simp
  from p st ps have "\<exists>plan'. map_get (planStore (fst (executePlan ''plan-1'' (fail_on ''a'')
                   (demo_store chain_steps)))) ''plan-1'' = Some plan'
         \<and> map status (plan_steps plan') = [failed, failed, failed]
         \<and> plan_status plan' = failed" by (intro exI [of _ plan'] conjI)
  with n demo_store_lookup [of chain_steps] show ?thesis by (intro conjI)
qed

text \<open>
  C6. For every stored plan whose dependency graph is structurally invalid (an unknown
  dependency id, or a cycle), \<open>executePlan\<close> throws the structural error (the not-found
  error or the cycle error), no callback runs and the executor is invoked for no step,
  and the stored plan's steps are the steps it had before the call: status and result
  fields are unchanged, so steps that were \<open>pending\<close> with no result still are.
\<close>

theorem executePlan_structural_error:
  assumes stored: "map_get (planStore st) planId = Some plan"
      and invalid: "\<not> deps_resolve (plan_steps plan) \<or> \<not> deps_acyclic (plan_steps plan)"
  shows "(\<exists>e. thrown_by_call (snd (executePlan planId executor st)) = Some e
             \<and> (e = CircularDependency \<or> (\<exists>depId. e = DependencyNotFound depId)))
       \<and> report_callbacks (snd (executePlan planId executor st)) = []
       \<and> report_executor_calls (snd (executePlan planId executor st)) = []
       \<and> (\<exists>plan'. map_get (planStore (fst (executePlan planId executor st))) planId = Some plan'
              \<and> plan_steps plan' = plan_steps plan
              \<and> ((\<forall>s \<in> set (plan_steps plan). status s = pending \<and> result s = None)
                    \<longrightarrow> (\<forall>s \<in> set (plan_steps plan'). status s = pending \<and> result s = None)))"
proof -
  have "\<exists>e. topologicalSort (plan_steps plan) = Inl e
            \<and> (e = CircularDependency \<or> (\<exists>depId. e = DependencyNotFound depId))"
  proof (cases "deps_resolve (plan_steps plan)")
    case False
    from topologicalSort_unresolved [OF False] show ?thesis by blast
  next
    case True
    with invalid have cyc: "\<not> deps_acyclic (plan_steps plan)" by simp
    from topologicalSort_resolved [OF True] obtain layers n where
      ts: "topologicalSort (plan_steps plan)
             = (if n \<noteq> length (plan_steps plan) then Inl CircularDependency else Inr layers)"
      by blast
    have "n \<noteq> length (plan_steps plan)"
    proof
      assume "n = length (plan_steps plan)"
      with ts have "topologicalSort (plan_steps plan) = Inr layers" by simp
      then have "deps_acyclic (plan_steps plan)" by (rule topologicalSort_Inr_acyclic)
      with cyc show False by simp
    qed
    with ts show ?thesis by simp
  qed
  then obtain e where ts: "topologicalSort (plan_steps plan) = Inl e"
    and e: "e = CircularDependency \<or> (\<exists>depId. e = DependencyNotFound depId)" by blast
  note run = executePlan_sort_error [OF stored ts, of executor]
  show ?thesis using e by (simp add: run map_get_map_set)
qed

theorem executePlan_structural_error_witness:
  "map_get (planStore (demo_store cycle_steps)) ''plan-1''
     = Some \<lparr>plan_id = ''plan-1'', plan_steps = cycle_steps, plan_status = pending,
             createdAt = 0\<rparr>
   \<and> \<not> deps_acyclic cycle_steps
   \<and> thrown_by_call (snd (executePlan ''plan-1'' (fail_on ''a'') (demo_store cycle_steps)))
       = Some CircularDependency
   \<and> report_executor_calls (snd (executePlan ''plan-1'' (fail_on ''a'') (demo_store cycle_steps)))
       = []
   \<and> (\<exists>plan'. map_get (planStore (fst (executePlan ''plan-1'' (fail_on ''a'')
                   (demo_store cycle_steps)))) ''plan-1'' = Some plan'
         \<and> plan_steps plan' = cycle_steps)"
proof -
  have c: "\<not> deps_acyclic cycle_steps"
    by (auto simp: deps_acyclic_def dep_edges_def cycle_steps_def plain_step_def
          acyclic_empty_rel)
  then have i: "\<not> deps_resolve (plan_steps \<lparr>plan_id = ''plan-1'', plan_steps = cycle_steps,
                     plan_status = pending, createdAt = 0\<rparr>)
                \<or> \<not> deps_acyclic (plan_steps \<lparr>plan_id = ''plan-1'', plan_steps = cycle_steps,
                     plan_status = pending, createdAt = 0\<rparr>)" by simp
  from executePlan_structural_error [OF demo_store_lookup i, of "fail_on ''a''"]
  have calls: "report_executor_calls (snd (executePlan ''plan-1'' (fail_on ''a'')
                 (demo_store cycle_steps))) = []"
    and kept: "\<exists>plan'. map_get (planStore (fst (executePlan ''plan-1'' (fail_on ''a'')
                   (demo_store cycle_steps)))) ''plan-1'' = Some plan'
         \<and> plan_steps plan' = cycle_steps"
    by auto
  have thrown: "thrown_by_call (snd (executePlan ''plan-1'' (fail_on ''a'')
                  (demo_store cycle_steps))) = Some CircularDependency"
    by (simp add: cycle_run)
  from demo_store_lookup [of cycle_steps] c thrown calls kept show ?thesis by (intro conjI)
qed

text \<open>
  Whenever \<open>topologicalSort\<close> returns layers, they are a partition of the input step
  ids: no layer is empty, every input step id occurs exactly once in the concatenation of
  the layers (so in exactly one layer, once), and nothing else occurs.
\<close>

lemma topologicalSort_layers_partition:
  assumes ts: "topologicalSort stepList = Inr layers"
  shows "[] \<notin> set layers"
    and "distinct (concat layers)"
    and "set (concat layers) = set (step_ids stepList)"
    and "\<forall>x \<in> set (step_ids stepList). count_list (concat layers) x = 1"
proof -
  from topologicalSort_Inr [OF ts] bfs_post_partition
  show ne: "[] \<notin> set layers" and d: "distinct (concat layers)"
    and s: "set (concat layers) = set (step_ids stepList)" by blast+
  show "\<forall>x \<in> set (step_ids stepList). count_list (concat layers) x = 1"
    using d s by (simp add: count_list_distinct)
qed

text \<open>
  Whatever the executor does, \<open>executePlan\<close> runs the callbacks of the first \<open>n\<close> layers,
  in order, each once, and calls the executor at most once for a step, and only for a
  step whose callback ran. It stops before the last layer only by throwing.
\<close>

lemma executePlan_at_most_once:
  assumes ts: "topologicalSort (plan_steps plan) = Inr layers"
      and stored: "map_get (planStore st) planId = Some plan"
  shows "\<exists>n \<le> length layers.
           report_callbacks (snd (executePlan planId executor st)) = concat (take n layers)
         \<and> (n < length layers
              \<longrightarrow> thrown_by_call (snd (executePlan planId executor st)) = Some JsTypeError)"
    and "distinct (report_callbacks (snd (executePlan planId executor st)))"
    and "distinct (report_executor_calls (snd (executePlan planId executor st)))"
    and "set (report_executor_calls (snd (executePlan planId executor st)))
           \<subseteq> set (report_callbacks (snd (executePlan planId executor st)))"
proof -
  from executePlan_sorted [OF stored ts, of executor] obtain rs n where n: "n \<le> length layers"
    and inv: "run_inv executor (plan_steps plan) (concat (take n layers)) rs"
    and stop: "n < length layers \<longrightarrow> rejected rs"
    and run: "executePlan planId executor st
             = (if rejected rs then
                  (st\<lparr>planStore :=
                        map_set planId (plan\<lparr>plan_status := running, plan_steps := run_steps rs\<rparr>)
                          (planStore st)\<rparr>,
                   \<lparr>thrown_by_call = Some JsTypeError, report_callbacks = callbacks rs,
                    report_executor_calls = executor_calls rs\<rparr>)
                else
                  (st\<lparr>planStore :=
                        map_set planId
                          (update_plan_status (plan\<lparr>plan_status := running,
                                                     plan_steps := run_steps rs\<rparr>))
                          (planStore st)\<rparr>,
                   \<lparr>thrown_by_call = None, report_callbacks = callbacks rs,
                    report_executor_calls = executor_calls rs\<rparr>))"
    by blast
  have rep: "snd (executePlan planId executor st)
             = \<lparr>thrown_by_call = (if rejected rs then Some JsTypeError else None),
                report_callbacks = callbacks rs, report_executor_calls = executor_calls rs\<rparr>"
    by (simp add: run)
  from inv have cb: "callbacks rs = concat (take n layers)"
    and dc: "distinct (executor_calls rs)"
    and sc: "set (executor_calls rs) \<subseteq> set (concat (take n layers))"
    by (simp_all add: run_inv_def)
  from topologicalSort_layers_partition(2) [OF ts]
  have "distinct (concat (take n layers) @ concat (drop n layers))"
    by (simp only: concat_append [symmetric] append_take_drop_id)
  then have d: "distinct (concat (take n layers))" by simp
  from n cb stop
  show "\<exists>n \<le> length layers.
           report_callbacks (snd (executePlan planId executor st)) = concat (take n layers)
         \<and> (n < length layers
              \<longrightarrow> thrown_by_call (snd (executePlan planId executor st)) = Some JsTypeError)"
    by (auto simp: rep)
  show "distinct (report_callbacks (snd (executePlan planId executor st)))"
    using d by (simp add: rep cb)
  show "distinct (report_executor_calls (snd (executePlan planId executor st)))"
    using dc by (simp add: rep)
  show "set (report_executor_calls (snd (executePlan planId executor st)))
           \<subseteq> set (report_callbacks (snd (executePlan planId executor st)))"
    using sc by (simp add: rep cb)
qed

text \<open>
  When the call returns normally, the callback of every step ran, exactly once, in the
  order of the layers, and it left the step settled: by the executor's outcome when the
  executor was called for it, and by the dependency check otherwise.
\<close>

lemma executePlan_each_step_once:
  assumes ts: "topologicalSort (plan_steps plan) = Inr layers"
      and stored: "map_get (planStore st) planId = Some plan"
      and normal: "thrown_by_call (snd (executePlan planId executor st)) = None"
  shows "report_callbacks (snd (executePlan planId executor st)) = concat layers"
    and "\<forall>x \<in> set (step_ids (plan_steps plan)).
           count_list (report_callbacks (snd (executePlan planId executor st))) x = 1"
    and "\<exists>plan'. map_get (planStore (fst (executePlan planId executor st))) planId = Some plan'
           \<and> length (plan_steps plan') = length (plan_steps plan)
           \<and> (\<forall>i < length (plan_steps plan).
                plan_steps plan' ! i
                  = (if step_id (plan_steps plan ! i)
                          \<in> set (report_executor_calls (snd (executePlan planId executor st)))
                     then executed executor (plan_steps plan ! i)
                     else cascaded (plan_steps plan ! i)))"
proof -
  from executePlan_sorted_normal [OF stored ts normal] obtain rs where
    inv: "run_inv executor (plan_steps plan) (concat layers) rs"
    and nrej: "\<not> rejected rs"
    and run: "executePlan planId executor st
             = (st\<lparr>planStore :=
                      map_set planId
                        (update_plan_status (plan\<lparr>plan_status := running,
                                                   plan_steps := run_steps rs\<rparr>))
                        (planStore st)\<rparr>,
                \<lparr>thrown_by_call = None, report_callbacks = concat layers,
                 report_executor_calls = executor_calls rs\<rparr>)"
    by blast
  note part = topologicalSort_layers_partition [OF ts]
  from part(3) have all: "set (step_ids (plan_steps plan)) \<subseteq> set (concat layers)" by simp
  show "report_callbacks (snd (executePlan planId executor st)) = concat layers"
    by (simp add: run)
  show "\<forall>x \<in> set (step_ids (plan_steps plan)).
           count_list (report_callbacks (snd (executePlan planId executor st))) x = 1"
    using part(4) by (simp add: run)
  let ?p3 = "update_plan_status (plan\<lparr>plan_status := running, plan_steps := run_steps rs\<rparr>)"
  have fs: "plan_steps ?p3 = run_steps rs" by (simp add: update_plan_status_def Let_def)
  have "map_get (planStore (fst (executePlan planId executor st))) planId = Some ?p3"
    by (simp add: run map_get_map_set)
  moreover have "length (plan_steps ?p3) = length (plan_steps plan)"
    using inv by (simp add: fs run_inv_def)
  moreover have "\<forall>i < length (plan_steps plan).
                plan_steps ?p3 ! i
                  = (if step_id (plan_steps plan ! i)
                          \<in> set (report_executor_calls (snd (executePlan planId executor st)))
                     then executed executor (plan_steps plan ! i)
                     else cascaded (plan_steps plan ! i))"
    using run_inv_final(1,3) [OF inv all nrej] by (simp add: fs run)
  ultimately show "\<exists>plan'. map_get (planStore (fst (executePlan planId executor st))) planId
                      = Some plan'
           \<and> length (plan_steps plan') = length (plan_steps plan)
           \<and> (\<forall>i < length (plan_steps plan).
                plan_steps plan' ! i
                  = (if step_id (plan_steps plan ! i)
                          \<in> set (report_executor_calls (snd (executePlan planId executor st)))
                     then executed executor (plan_steps plan ! i)
                     else cascaded (plan_steps plan ! i)))"
    by blast
qed

text \<open>
  C10. The layers \<open>topologicalSort\<close> returns are a partition of the input step ids
  (\<open>topologicalSort_layers_partition\<close>), and \<open>executePlan\<close> is to process each step of a
  valid plan exactly once. It does so whenever it returns normally
  (\<open>executePlan_each_step_once\<close>), but not for every executor: on the chain
  \<open>a \<rightarrow> b \<rightarrow> c\<close> with an executor that throws \<^verbatim>\<open>Object.create(null)\<close> for \<open>a\<close>, the \<^verbatim>\<open>catch\<close>
  block sets \<open>a\<close> to \<open>failed\<close> and then raises a \<^verbatim>\<open>TypeError\<close> at \<^verbatim>\<open>String(error)\<close>; the call
  throws it after the one callback of the first layer. The steps \<open>b\<close> and \<open>c\<close> are never
  processed: they stay \<open>pending\<close> without a result, \<open>a\<close> has no result, and the plan
  stays \<open>running\<close>.
\<close>

theorem executePlan_unprintable_throw:
  "topologicalSort chain_steps = Inr [[''a''], [''b''], [''c'']]
   \<and> executePlan ''plan-1'' (crash_on ''a'') (demo_store chain_steps)
     = (\<lparr>planStore =
           [(''plan-1'',
             \<lparr>plan_id = ''plan-1'',
              plan_steps =
                [(plain_step ''a'' [])\<lparr>status := failed\<rparr>,
                 plain_step ''b'' [''a''],
                 plain_step ''c'' [''b'']],
              plan_status = running, createdAt = 0\<rparr>)],
         stepIndex = [(''a'', ''plan-1''), (''b'', ''plan-1''), (''c'', ''plan-1'')],
         planCounter = 1, stepCounter = 3, clockReads = 0\<rparr>,
        \<lparr>thrown_by_call = Some JsTypeError, report_callbacks = [''a''],
         report_executor_calls = [''a'']\<rparr>)
   \<and> count_list (report_callbacks
         (snd (executePlan ''plan-1'' (crash_on ''a'') (demo_store chain_steps)))) ''b'' = 0
   \<and> map status [plain_step ''a'' [], plain_step ''b'' [''a''], plain_step ''c'' [''b'']]
       = [pending, pending, pending]"
proof -
  have ts: "topologicalSort chain_steps = Inr [[''a''], [''b''], [''c'']]"
    by (simp add: chain_steps_def plain_step_def sort_eval)
  have run: "executePlan ''plan-1'' (crash_on ''a'') (demo_store chain_steps)
     = (\<lparr>planStore =
           [(''plan-1'',
             \<lparr>plan_id = ''plan-1'',
              plan_steps =
                [(plain_step ''a'' [])\<lparr>status := failed\<rparr>,
                 plain_step ''b'' [''a''],
                 plain_step ''c'' [''b'']],
              plan_status = running, createdAt = 0\<rparr>)],
         stepIndex = [(''a'', ''plan-1''), (''b'', ''plan-1''), (''c'', ''plan-1'')],
         planCounter = 1, stepCounter = 3, clockReads = 0\<rparr>,
        \<lparr>thrown_by_call = Some JsTypeError, report_callbacks = [''a''],
         report_executor_calls = [''a'']\<rparr>)"
    by (simp add: exec_eval sort_eval chain_steps_def plain_step_def)
  have cnt: "count_list (report_callbacks
         (snd (executePlan ''plan-1'' (crash_on ''a'') (demo_store chain_steps)))) ''b'' = 0"
    by (simp add: run)
  have st0: "map status [plain_step ''a'' [], plain_step ''b'' [''a''], plain_step ''c'' [''b'']]
       = [pending, pending, pending]"
    by (simp add: plain_step_def)
  from ts run cnt st0 show ?thesis by (intro conjI)
qed

lemma find_step_nth:
  assumes "distinct (step_ids sl)" and "i < length sl"
  shows "find_step sl (step_id (sl ! i)) = Some (sl ! i)"
proof -
  have "\<not> (step_id (sl ! j) = step_id (sl ! i))" if "j < i" for j
    using that assms nth_eq_iff_index_eq [of "step_ids sl" j i]
    by (simp add: step_ids_def)
  then show ?thesis
    unfolding find_step_def find_Some_iff using assms(2) by blast
qed

lemma topologicalSort_accepts:
  assumes res: "deps_resolve sl" and acy: "deps_acyclic sl" and ids: "distinct (step_ids sl)"
  shows "\<exists>layers. topologicalSort sl = Inr layers"
proof -
  from topologicalSort_resolved [OF res] obtain layers n where
    post: "bfs_post (dep_edges sl) (set (step_ids sl)) layers n"
    and ts: "topologicalSort sl = (if n \<noteq> length sl then Inl CircularDependency else Inr layers)"
    by blast
  have all: "set (concat layers) = set (step_ids sl)"
    by (rule bfs_post_complete [OF post res acy])
  from post have n: "n = length (concat layers)" and d: "distinct (concat layers)"
    by (simp_all add: bfs_post_def)
  have "card (set (concat layers)) = length (concat layers)" using d by (rule distinct_card)
  then have "n = card (set (step_ids sl))" using n by (simp only: all)
  also have "\<dots> = length (step_ids sl)" using ids by (rule distinct_card)
  finally have "n = length sl" by (simp add: step_ids_def)
  with ts show ?thesis by simp
qed

text \<open>The dependency relation of a chain of three steps.\<close>

lemma chain_valid:
  assumes steps: "set sl = {A, B, C}" and len: "length sl = 3"
      and ids: "step_id A \<noteq> step_id B" "step_id B \<noteq> step_id C" "step_id A \<noteq> step_id C"
      and deps: "dependencies A = []" "dependencies B = [step_id A]"
                "dependencies C = [step_id B]"
  shows "distinct (step_ids sl)" and "deps_resolve sl" and "deps_acyclic sl"
proof -
  from ids have ne: "A \<noteq> B" "B \<noteq> C" "A \<noteq> C" by auto
  then have "card (set sl) = length sl" by (simp add: steps len)
  then have d: "distinct sl" by (rule card_distinct)
  have "inj_on step_id (set sl)" using ids by (auto simp: steps inj_on_def)
  with d show "distinct (step_ids sl)" by (simp add: step_ids_def distinct_map)
  show "deps_resolve sl"
    by (simp add: deps_resolve_def step_ids_def steps deps)
  have "set (dep_edges sl) = {(step_id A, step_id B), (step_id B, step_id C)}"
    by (auto simp: set_dep_edges steps deps)
  moreover have "acyclic {(step_id A, step_id B), (step_id B, step_id C)}"
    using ids by (auto simp: acyclic_empty_rel elim: rtranclE)
  ultimately show "deps_acyclic sl" by (simp add: deps_acyclic_def)
qed


text \<open>What the invariant says of a step whose callback ran.\<close>

lemma run_inv_met:
  assumes inv: "run_inv ex sl0 done rs" and i: "i < length sl0"
      and m: "step_id (sl0 ! i) \<in> set done"
  shows "set (dependencies (sl0 ! i)) \<subseteq> set done"
    and "step_id (sl0 ! i) \<in> failedStepIds rs
           \<longleftrightarrow> blocked (failedStepIds rs) (sl0 ! i)
               \<or> status (executed ex (sl0 ! i)) = failed \<and> \<not> crashes ex (sl0 ! i)"
    and "step_id (sl0 ! i) \<in> set (executor_calls rs) \<longleftrightarrow> \<not> blocked (failedStepIds rs) (sl0 ! i)"
  using assms by (simp_all add: run_inv_def)

text \<open>
  C2. For every plan whose steps are three steps A, B, C (in any order in the plan) that
  form a chain, B depending on A and C on B, and every executor that throws when it is
  called for A (marked \<open>running\<close>): either what it throws has no string form, and then
  \<open>executePlan\<close> throws; or it throws an \<^verbatim>\<open>Error\<close> with the message \<open>m\<close>, or another value
  with the string form \<open>m\<close>, and then \<open>executePlan\<close> returns normally, and afterwards A is
  \<open>failed\<close> with the error \<open>m\<close>, B and C are \<open>failed\<close> with the error
  \<open>Dependency step failed\<close>, the executor was invoked for A only, and the plan's status
  is \<open>failed\<close>.
\<close>

theorem executePlan_cascade:
  assumes stored: "map_get (planStore st) planId = Some plan"
      and steps: "set (plan_steps plan) = {A, B, C}" and len: "length (plan_steps plan) = 3"
      and ids: "step_id A \<noteq> step_id B" "step_id B \<noteq> step_id C" "step_id A \<noteq> step_id C"
      and deps: "dependencies A = []" "dependencies B = [step_id A]"
                "dependencies C = [step_id B]"
      and throws: "executor (A\<lparr>status := running\<rparr>) = threw t"
  shows "t = thrown_unprintable
           \<and> thrown_by_call (snd (executePlan planId executor st)) = Some JsTypeError
       \<or> (\<exists>m. (t = thrown_error m \<or> t = thrown_other m)
            \<and> thrown_by_call (snd (executePlan planId executor st)) = None
            \<and> report_executor_calls (snd (executePlan planId executor st)) = [step_id A]
            \<and> (\<exists>plan'. map_get (planStore (fst (executePlan planId executor st))) planId
                          = Some plan'
                 \<and> plan_status plan' = failed
                 \<and> find_step (plan_steps plan') (step_id A)
                     = Some (A\<lparr>status := failed, result := Some (error_result m)\<rparr>)
                 \<and> find_step (plan_steps plan') (step_id B)
                     = Some (B\<lparr>status := failed,
                               result := Some (error_result ''Dependency step failed'')\<rparr>)
                 \<and> find_step (plan_steps plan') (step_id C)
                     = Some (C\<lparr>status := failed,
                               result := Some (error_result ''Dependency step failed'')\<rparr>)))"
proof -
  let ?sl = "plan_steps plan"
  note valid = chain_valid [OF steps len ids deps]
  from topologicalSort_accepts [OF valid(2,3,1)] obtain layers where
    ts: "topologicalSort ?sl = Inr layers" by blast
  from executePlan_sorted [OF stored ts, of executor] obtain rs n where n: "n \<le> length layers"
    and inv: "run_inv executor ?sl (concat (take n layers)) rs"
    and stop: "n < length layers \<longrightarrow> rejected rs"
    and run: "executePlan planId executor st
             = (if rejected rs then
                  (st\<lparr>planStore :=
                        map_set planId (plan\<lparr>plan_status := running, plan_steps := run_steps rs\<rparr>)
                          (planStore st)\<rparr>,
                   \<lparr>thrown_by_call = Some JsTypeError, report_callbacks = callbacks rs,
                    report_executor_calls = executor_calls rs\<rparr>)
                else
                  (st\<lparr>planStore :=
                        map_set planId
                          (update_plan_status (plan\<lparr>plan_status := running,
                                                     plan_steps := run_steps rs\<rparr>))
                          (planStore st)\<rparr>,
                   \<lparr>thrown_by_call = None, report_callbacks = callbacks rs,
                    report_executor_calls = executor_calls rs\<rparr>))"
    by blast
  let ?done = "concat (take n layers)"
  let ?F = "failedStepIds rs"
  from topologicalSort_Inr [OF ts] bfs_post_partition
  have cover: "set (concat layers) = set (step_ids ?sl)" by blast
  obtain iA iB iC where iA: "iA < length ?sl" "?sl ! iA = A"
    and iB: "iB < length ?sl" "?sl ! iB = B" and iC: "iC < length ?sl" "?sl ! iC = C"
    using steps by (metis in_set_conv_nth insertCI)
  note mA = run_inv_met [OF inv iA(1), unfolded iA(2)]
  note mB = run_inv_met [OF inv iB(1), unfolded iB(2)]
  note mC = run_inv_met [OF inv iC(1), unfolded iC(2)]
  from inv have calls_done: "set (executor_calls rs) \<subseteq> set ?done"
    and rej: "rejected rs \<longleftrightarrow>
        (\<exists>i < length ?sl. step_id (?sl ! i) \<in> set (executor_calls rs)
                           \<and> crashes executor (?sl ! i))"
    by (simp_all add: run_inv_def)
  have nbA: "\<not> blocked ?F A" by (simp add: blocked_def deps)
  have bB: "blocked ?F B \<longleftrightarrow> step_id A \<in> ?F" by (simp add: blocked_def deps)
  have bC: "blocked ?F C \<longleftrightarrow> step_id B \<in> ?F" by (simp add: blocked_def deps)
  have exA: "status (executed executor A) = failed"
    by (simp add: executed_def throws split: thrown.splits)
  have crA: "crashes executor A \<longleftrightarrow> t = thrown_unprintable"
    by (simp add: crashes_def throws)
  show ?thesis
  proof (cases "t = thrown_unprintable")
    case True
    have "rejected rs"
    proof (rule ccontr)
      assume nrej: "\<not> rejected rs"
      with stop n have "n = length layers" by simp
      then have "step_id A \<in> set ?done" using cover iA by (auto simp: step_ids_def)
      with mA(3) nbA have "step_id A \<in> set (executor_calls rs)" by simp
      with iA crA True rej have "rejected rs" by auto
      with nrej show False by simp
    qed
    with run True show ?thesis by simp
  next
    case False
    then obtain m where m: "t = thrown_error m \<or> t = thrown_other m" by (cases t) auto
    have ncA: "\<not> crashes executor A" using False by (simp add: crA)
    have Afails: "step_id A \<in> ?F" if "step_id A \<in> set ?done"
      using mA(2) [OF that] exA ncA by simp
    have Bfails: "step_id B \<in> ?F" if "step_id B \<in> set ?done"
    proof -
      from mB(1) [OF that] have "step_id A \<in> set ?done" by (simp add: deps)
      then have "blocked ?F B" using Afails by (simp add: bB)
      with mB(2) [OF that] show ?thesis by simp
    qed
    have nB: "step_id B \<notin> set (executor_calls rs)"
    proof
      assume c: "step_id B \<in> set (executor_calls rs)"
      with calls_done have d: "step_id B \<in> set ?done" by auto
      from mB(1) [OF d] have "step_id A \<in> set ?done" by (simp add: deps)
      then have "blocked ?F B" using Afails by (simp add: bB)
      with mB(3) [OF d] c show False by simp
    qed
    have nC: "step_id C \<notin> set (executor_calls rs)"
    proof
      assume c: "step_id C \<in> set (executor_calls rs)"
      with calls_done have d: "step_id C \<in> set ?done" by auto
      from mC(1) [OF d] have "step_id B \<in> set ?done" by (simp add: deps)
      then have "blocked ?F C" using Bfails by (simp add: bC)
      with mC(3) [OF d] c show False by simp
    qed
    have nrej: "\<not> rejected rs"
    proof
      assume "rejected rs"
      with rej obtain i where i: "i < length ?sl"
        and c: "step_id (?sl ! i) \<in> set (executor_calls rs)"
        and cr: "crashes executor (?sl ! i)" by blast
      from i have "?sl ! i \<in> set ?sl" by simp
      with steps have "?sl ! i = A \<or> ?sl ! i = B \<or> ?sl ! i = C" by simp
      with c cr ncA nB nC show False by auto
    qed
    with stop n have full: "n = length layers" by simp
    with inv have inv': "run_inv executor ?sl (concat layers) rs" by simp
    from cover have all: "set (step_ids ?sl) \<subseteq> set (concat layers)" by simp
    note fA = run_inv_final [OF inv' all nrej iA(1), unfolded iA(2)]
    note fB = run_inv_final [OF inv' all nrej iB(1), unfolded iB(2)]
    note fC = run_inv_final [OF inv' all nrej iC(1), unfolded iC(2)]
    have rA: "run_steps rs ! iA = A\<lparr>status := failed, result := Some (error_result m)\<rparr>"
      using fA(1) nbA m by (auto simp: executed_def throws)
    then have "step_id A \<in> ?F" using fA(2) by simp
    then have blB: "blocked ?F B" by (simp add: bB)
    have rB: "run_steps rs ! iB
                = B\<lparr>status := failed, result := Some (error_result ''Dependency step failed'')\<rparr>"
      using fB(1) blB by (simp add: cascaded_def)
    then have "step_id B \<in> ?F" using fB(2) by simp
    then have blC: "blocked ?F C" by (simp add: bC)
    have rC: "run_steps rs ! iC
                = C\<lparr>status := failed, result := Some (error_result ''Dependency step failed'')\<rparr>"
      using fC(1) blC by (simp add: cascaded_def)
    have calls: "executor_calls rs = [step_id A]"
    proof -
      from inv' have d: "distinct (executor_calls rs)"
        and sub: "set (executor_calls rs) \<subseteq> set (concat layers)"
        by (simp_all add: run_inv_def)
      have "set (step_ids ?sl) = {step_id A, step_id B, step_id C}"
        by (simp add: step_ids_def steps)
      with sub cover have "set (executor_calls rs) \<subseteq> {step_id A, step_id B, step_id C}"
        by simp
      moreover have "step_id A \<in> set (executor_calls rs)" using fA(3) nbA by simp
      ultimately have "set (executor_calls rs) = {step_id A}" using nB nC by blast
      with d show ?thesis
        by (metis distinct_card card_1_singleton_iff length_0_conv length_Suc_conv
              list.simps(15) empty_set insert_absorb2 singleton_insert_inj_eq' One_nat_def)
    qed
    let ?p2 = "plan\<lparr>plan_status := running, plan_steps := run_steps rs\<rparr>"
    let ?p3 = "update_plan_status ?p2"
    have settled: "\<forall>s \<in> set (plan_steps ?p2). status s = completed \<or> status s = failed"
      using run_inv_final_settled [OF inv' all nrej] by simp
    note u = update_plan_status_settled [OF settled]
    have fs: "plan_steps ?p3 = run_steps rs" by (simp add: u(1))
    have idsf: "step_ids (run_steps rs) = step_ids ?sl"
      by (rule run_inv_final_ids [OF inv' all nrej])
    have lenf: "length (run_steps rs) = length ?sl"
      using inv' by (simp add: run_inv_def)
    have df: "distinct (step_ids (run_steps rs))" by (simp add: idsf valid(1))
    have look: "find_step (run_steps rs) (step_id (?sl ! i)) = Some (run_steps rs ! i)"
      if "i < length ?sl" for i
    proof -
      have "step_id (run_steps rs ! i) = step_id (?sl ! i)"
        by (rule run_inv_final(4) [OF inv' all nrej that])
      then show ?thesis using find_step_nth [OF df, of i] that lenf by simp
    qed
    have "status (run_steps rs ! iA) = failed" by (simp add: rA)
    moreover have "run_steps rs ! iA \<in> set (run_steps rs)" using iA(1) lenf by simp
    ultimately have "\<exists>s \<in> set (plan_steps ?p2). status s = failed" by auto
    then have pf: "plan_status ?p3 = failed" by (simp only: u)
    have g1: "map_get (planStore (fst (executePlan planId executor st))) planId = Some ?p3"
      using nrej by (simp add: run map_get_map_set)
    have g2: "find_step (plan_steps ?p3) (step_id A)
                = Some (A\<lparr>status := failed, result := Some (error_result m)\<rparr>)"
      using look [OF iA(1)] by (simp add: fs iA(2) rA)
    have g3: "find_step (plan_steps ?p3) (step_id B)
                = Some (B\<lparr>status := failed,
                          result := Some (error_result ''Dependency step failed'')\<rparr>)"
      using look [OF iB(1)] by (simp add: fs iB(2) rB)
    have g4: "find_step (plan_steps ?p3) (step_id C)
                = Some (C\<lparr>status := failed,
                          result := Some (error_result ''Dependency step failed'')\<rparr>)"
      using look [OF iC(1)] by (simp add: fs iC(2) rC)
    have g5: "thrown_by_call (snd (executePlan planId executor st)) = None"
      using nrej by (simp add: run)
    have g6: "report_executor_calls (snd (executePlan planId executor st)) = [step_id A]"
      using nrej by (simp add: run calls)
    from g1 pf g2 g3 g4 have ex: "\<exists>plan'. map_get (planStore (fst (executePlan planId executor st)))
                      planId = Some plan'
                 \<and> plan_status plan' = failed
                 \<and> find_step (plan_steps plan') (step_id A)
                     = Some (A\<lparr>status := failed, result := Some (error_result m)\<rparr>)
                 \<and> find_step (plan_steps plan') (step_id B)
                     = Some (B\<lparr>status := failed,
                               result := Some (error_result ''Dependency step failed'')\<rparr>)
                 \<and> find_step (plan_steps plan') (step_id C)
                     = Some (C\<lparr>status := failed,
                               result := Some (error_result ''Dependency step failed'')\<rparr>)"
      by (intro exI [of _ ?p3] conjI)
    have "(t = thrown_error m \<or> t = thrown_other m)
            \<and> thrown_by_call (snd (executePlan planId executor st)) = None
            \<and> report_executor_calls (snd (executePlan planId executor st)) = [step_id A]
            \<and> (\<exists>plan'. map_get (planStore (fst (executePlan planId executor st))) planId
                          = Some plan'
                 \<and> plan_status plan' = failed
                 \<and> find_step (plan_steps plan') (step_id A)
                     = Some (A\<lparr>status := failed, result := Some (error_result m)\<rparr>)
                 \<and> find_step (plan_steps plan') (step_id B)
                     = Some (B\<lparr>status := failed,
                               result := Some (error_result ''Dependency step failed'')\<rparr>)
                 \<and> find_step (plan_steps plan') (step_id C)
                     = Some (C\<lparr>status := failed,
                               result := Some (error_result ''Dependency step failed'')\<rparr>))"
      using m g5 g6 ex by (intro conjI)
    then show ?thesis by (intro disjI2 exI [of _ m])
  qed
qed

theorem executePlan_cascade_witness:
  "map_get (planStore (demo_store chain_steps)) ''plan-1''
     = Some \<lparr>plan_id = ''plan-1'', plan_steps = chain_steps, plan_status = pending,
             createdAt = 0\<rparr>
   \<and> set chain_steps = {plain_step ''a'' [], plain_step ''b'' [''a''], plain_step ''c'' [''b'']}
   \<and> length chain_steps = 3
   \<and> dependencies (plain_step ''b'' [''a'']) = [step_id (plain_step ''a'' [])]
   \<and> dependencies (plain_step ''c'' [''b'']) = [step_id (plain_step ''b'' [''a''])]
   \<and> fail_on ''a'' ((plain_step ''a'' [])\<lparr>status := running\<rparr>) = threw (thrown_error ''boom'')
   \<and> thrown_by_call (snd (executePlan ''plan-1'' (fail_on ''a'') (demo_store chain_steps))) = None
   \<and> report_executor_calls (snd (executePlan ''plan-1'' (fail_on ''a'') (demo_store chain_steps)))
       = [''a'']
   \<and> (\<exists>plan'. map_get (planStore (fst (executePlan ''plan-1'' (fail_on ''a'')
                   (demo_store chain_steps)))) ''plan-1'' = Some plan'
         \<and> plan_status plan' = failed
         \<and> find_step (plan_steps plan') ''a''
             = Some ((plain_step ''a'' [])
                       \<lparr>status := failed, result := Some (error_result ''boom'')\<rparr>)
         \<and> find_step (plan_steps plan') ''b''
             = Some ((plain_step ''b'' [''a''])
                       \<lparr>status := failed,
                        result := Some (error_result ''Dependency step failed'')\<rparr>)
         \<and> find_step (plan_steps plan') ''c''
             = Some ((plain_step ''c'' [''b''])
                       \<lparr>status := failed,
                        result := Some (error_result ''Dependency step failed'')\<rparr>))"
proof -
  let ?A = "plain_step ''a'' []" and ?B = "plain_step ''b'' [''a'']"
  and ?C = "plain_step ''c'' [''b'']"
  let ?plan = "\<lparr>plan_id = ''plan-1'', plan_steps = chain_steps, plan_status = pending,
                createdAt = 0\<rparr> :: unit execution_plan"
  let ?run = "executePlan ''plan-1'' (fail_on ''a'') (demo_store chain_steps)"
  have h1: "set (plan_steps ?plan) = {?A, ?B, ?C}" by (simp add: chain_steps_def)
  have h2: "length (plan_steps ?plan) = 3" by (simp add: chain_steps_def)
  have h3: "step_id ?A \<noteq> step_id ?B" "step_id ?B \<noteq> step_id ?C" "step_id ?A \<noteq> step_id ?C"
    by (simp_all add: plain_step_def)
  have h4: "dependencies ?A = []" "dependencies ?B = [step_id ?A]"
    "dependencies ?C = [step_id ?B]" by (simp_all add: plain_step_def)
  have h5: "fail_on ''a'' (?A\<lparr>status := running\<rparr>) = threw (thrown_error ''boom'')"
    by (simp add: fail_on_def plain_step_def)
  note c = executePlan_cascade [where A = ?A and B = ?B and C = ?C and plan = ?plan
             and st = "demo_store chain_steps" and planId = "''plan-1''"
             and executor = "fail_on ''a''" and t = "thrown_error ''boom''",
             OF demo_store_lookup h1 h2 h3 h4 h5]
  have "\<exists>m. (thrown_error ''boom'' = thrown_error m \<or> thrown_error ''boom'' = thrown_other m)
            \<and> thrown_by_call (snd ?run) = None
            \<and> report_executor_calls (snd ?run) = [step_id ?A]
            \<and> (\<exists>plan'. map_get (planStore (fst ?run)) ''plan-1'' = Some plan'
                 \<and> plan_status plan' = failed
                 \<and> find_step (plan_steps plan') (step_id ?A)
                     = Some (?A\<lparr>status := failed, result := Some (error_result m)\<rparr>)
                 \<and> find_step (plan_steps plan') (step_id ?B)
                     = Some (?B\<lparr>status := failed,
                               result := Some (error_result ''Dependency step failed'')\<rparr>)
                 \<and> find_step (plan_steps plan') (step_id ?C)
                     = Some (?C\<lparr>status := failed,
                               result := Some (error_result ''Dependency step failed'')\<rparr>))"
    using c
  proof
    assume "thrown_error ''boom'' = thrown_unprintable
            \<and> thrown_by_call (snd ?run) = Some JsTypeError"
    then have "thrown_error ''boom'' = thrown_unprintable" by (rule conjunct1)
    then show ?thesis by simp
  next
    assume "\<exists>m. (thrown_error ''boom'' = thrown_error m \<or> thrown_error ''boom'' = thrown_other m)
            \<and> thrown_by_call (snd ?run) = None
            \<and> report_executor_calls (snd ?run) = [step_id ?A]
            \<and> (\<exists>plan'. map_get (planStore (fst ?run)) ''plan-1'' = Some plan'
                 \<and> plan_status plan' = failed
                 \<and> find_step (plan_steps plan') (step_id ?A)
                     = Some (?A\<lparr>status := failed, result := Some (error_result m)\<rparr>)
                 \<and> find_step (plan_steps plan') (step_id ?B)
                     = Some (?B\<lparr>status := failed,
                               result := Some (error_result ''Dependency step failed'')\<rparr>)
                 \<and> find_step (plan_steps plan') (step_id ?C)
                     = Some (?C\<lparr>status := failed,
                               result := Some (error_result ''Dependency step failed'')\<rparr>))"
    then show ?thesis .
  qed
  then obtain m plan' where
    m: "thrown_error ''boom'' = thrown_error m \<or> thrown_error ''boom'' = thrown_other m"
    and c1: "thrown_by_call (snd ?run) = None"
    and c2: "report_executor_calls (snd ?run) = [step_id ?A]"
    and p: "map_get (planStore (fst ?run)) ''plan-1'' = Some plan'"
    and pf: "plan_status plan' = failed"
    and fa: "find_step (plan_steps plan') (step_id ?A)
               = Some (?A\<lparr>status := failed, result := Some (error_result m)\<rparr>)"
    and fb: "find_step (plan_steps plan') (step_id ?B)
               = Some (?B\<lparr>status := failed,
                            result := Some (error_result ''Dependency step failed'')\<rparr>)"
    and fc: "find_step (plan_steps plan') (step_id ?C)
               = Some (?C\<lparr>status := failed,
                            result := Some (error_result ''Dependency step failed'')\<rparr>)"
    by (elim exE conjE)
  from m have mb: "m = ''boom''" by simp
  have sA: "step_id ?A = ''a''" and sB: "step_id ?B = ''b''" and sC: "step_id ?C = ''c''"
    by (simp_all add: plain_step_def)
  from c2 have c2': "report_executor_calls (snd ?run) = [''a'']" by (simp only: sA)
  from fa have fa': "find_step (plan_steps plan') ''a''
             = Some (?A\<lparr>status := failed, result := Some (error_result ''boom'')\<rparr>)"
    by (simp only: sA mb)
  from fb have fb': "find_step (plan_steps plan') ''b''
             = Some (?B\<lparr>status := failed,
                          result := Some (error_result ''Dependency step failed'')\<rparr>)"
    by (simp only: sB)
  from fc have fc': "find_step (plan_steps plan') ''c''
             = Some (?C\<lparr>status := failed,
                          result := Some (error_result ''Dependency step failed'')\<rparr>)"
    by (simp only: sC)
  from p pf fa' fb' fc' have c3: "\<exists>plan'. map_get (planStore (fst ?run)) ''plan-1'' = Some plan'
         \<and> plan_status plan' = failed
         \<and> find_step (plan_steps plan') ''a''
             = Some (?A\<lparr>status := failed, result := Some (error_result ''boom'')\<rparr>)
         \<and> find_step (plan_steps plan') ''b''
             = Some (?B\<lparr>status := failed,
                          result := Some (error_result ''Dependency step failed'')\<rparr>)
         \<and> find_step (plan_steps plan') ''c''
             = Some (?C\<lparr>status := failed,
                          result := Some (error_result ''Dependency step failed'')\<rparr>)"
    by (intro exI [of _ plan'] conjI)
  from h1 have g1: "set chain_steps = {?A, ?B, ?C}" by simp
  from h2 have g2: "length chain_steps = 3" by simp
  from demo_store_lookup [of chain_steps] g1 g2 h4(2,3) h5 c1 c2' c3
  show ?thesis by (intro conjI)
qed

section \<open>Step ids over a sequence of calls\<close>

text \<open>The calls that change the module state.\<close>

datatype 'v api_call =
    call_generateStepId
  | call_generatePlanId
  | call_createPlan "'v parsed_intent"
  | call_executePlan string "'v step_executor"
  | call_clearAllPlans

text \<open>
  A step id that \<open>generateStepId\<close> returned, called directly or by \<open>createPlan\<close>, with two
  notes the code does not keep: which reading of the clock the call made (\<open>reading\<close>,
  counted over the whole run), and how many calls of \<open>clearAllPlans\<close> came before it.
  \<open>createPlan\<close> makes its step ids first, one reading each, in the order of the steps.
\<close>

record issue =
  issue_id :: string
  reading :: nat
  resets_before :: nat

fun run_call ::
  "clock \<Rightarrow> 'v api_call \<Rightarrow> 'v orchestrator \<times> issue list \<times> nat \<Rightarrow>
   'v orchestrator \<times> issue list \<times> nat" where
  "run_call clk call_generateStepId (st, issued, resets) =
     (let (sid, st') = generateStepId clk st
      in (st',
          issued @ [\<lparr>issue_id = sid, reading = clockReads st, resets_before = resets\<rparr>],
          resets))"
| "run_call clk call_generatePlanId (st, issued, resets) =
     (snd (generatePlanId clk st), issued, resets)"
| "run_call clk (call_createPlan intent) (st, issued, resets) =
     (let (plan, st') = createPlan clk intent st
      in (st',
          issued @ map (\<lambda>(k, sid). \<lparr>issue_id = sid, reading = clockReads st + k,
                                     resets_before = resets\<rparr>)
                     (enumerate 0 (step_ids (plan_steps plan))),
          resets))"
| "run_call clk (call_executePlan planId executor) (st, issued, resets) =
     (fst (executePlan planId executor st), issued, resets)"
| "run_call clk call_clearAllPlans (st, issued, resets) = (clearAllPlans st, issued, resets + 1)"

definition issue_log :: "clock \<Rightarrow> 'v api_call list \<Rightarrow> 'v orchestrator \<Rightarrow> issue list" where
  "issue_log clk calls st = fst (snd (fold (run_call clk) calls (st, [], 0)))"

definition issued_step_ids :: "clock \<Rightarrow> 'v api_call list \<Rightarrow> 'v orchestrator \<Rightarrow> string list" where
  "issued_step_ids clk calls st = map issue_id (issue_log clk calls st)"

text \<open>A clock that stands still, and one that ticks at every reading.\<close>

definition same_millisecond :: clock where
  "same_millisecond k = 1000"

definition ticking :: clock where
  "ticking k = 1000 + int k"

text \<open>
  Two issued ids, the first issued before the second, are told apart by the counter
  or by the clock: they are equal only across a reset and with the same clock value.
\<close>

definition apart :: "clock \<Rightarrow> issue \<Rightarrow> issue \<Rightarrow> bool" where
  "apart clk e e' \<longleftrightarrow>
     reading e < reading e'
   \<and> (issue_id e = issue_id e' \<longrightarrow>
        resets_before e < resets_before e' \<and> clk (reading e) = clk (reading e'))"

text \<open>The \<open>n\<close> ids \<open>generateStepId\<close> returns in \<open>n\<close> calls in a row from the state \<open>st\<close>.\<close>

definition fresh_issues :: "clock \<Rightarrow> 'v orchestrator \<Rightarrow> nat \<Rightarrow> nat \<Rightarrow> issue list" where
  "fresh_issues clk st resets n =
     map (\<lambda>k. \<lparr>issue_id = step_id_text (clk (clockReads st + k)) (stepCounter st + 1 + k),
                reading = clockReads st + k, resets_before = resets\<rparr>) [0..<n]"

definition issued_inv :: "clock \<Rightarrow> 'v orchestrator \<times> issue list \<times> nat \<Rightarrow> bool" where
  "issued_inv clk p \<longleftrightarrow>
     (\<forall>e \<in> set (fst (snd p)).
        reading e < clockReads (fst p) \<and> resets_before e \<le> snd (snd p)
      \<and> (\<exists>c. issue_id e = step_id_text (clk (reading e)) c
             \<and> (resets_before e = snd (snd p) \<longrightarrow> c \<le> stepCounter (fst p))))
   \<and> sorted_wrt (apart clk) (fst (snd p))"

subsection \<open>An id determines the clock value it was made from\<close>

lemma show_int_inj: "show_int a = show_int b \<Longrightarrow> a = b"
proof -
  assume eq: "show_int a = show_int b"
  have neg: "hd (show_int i) = CHR ''-''" if "i < 0" for i
    using that by (simp add: show_int_def)
  have pos: "hd (show_int i) \<noteq> CHR ''-''" if "\<not> i < 0" for i
  proof -
    have "hd (show_nat (nat i)) \<in> set (show_nat (nat i))"
      using show_nat_nonempty by (rule hd_in_set)
    with show_nat_no_minus [of "nat i"] have "hd (show_nat (nat i)) \<noteq> CHR ''-''" by metis
    with that show ?thesis by (simp add: show_int_def)
  qed
  show "a = b"
  proof (cases "a < 0")
    case True
    with neg [of a] eq pos [of b] have b: "b < 0" by metis
    with True eq have "show_nat (nat (- a)) = show_nat (nat (- b))" by (simp add: show_int_def)
    then have "nat (- a) = nat (- b)" by (rule show_nat_inj)
    with True b show ?thesis by simp
  next
    case False
    with pos [of a] eq neg [of b] have b: "\<not> b < 0" by metis
    with False eq have "show_nat (nat a) = show_nat (nat b)" by (simp add: show_int_def)
    then have "nat a = nat b" by (rule show_nat_inj)
    with False b show ?thesis by simp
  qed
qed

lemma step_id_text_time:
  assumes "step_id_text t c = step_id_text t' c'"
  shows "t = t'"
proof -
  from assms have c: "c = c'" by (rule step_id_text_counter)
  from assms have "show_int t @ CHR ''-'' # show_nat c = show_int t' @ CHR ''-'' # show_nat c"
    by (simp add: step_id_text_def c)
  then have "show_int t = show_int t'" by simp
  then show ?thesis by (rule show_int_inj)
qed

subsection \<open>The ids and the clock readings of createPlan\<close>

lemma upt_Suc_shift: "map g [0..<Suc m] = g 0 # map (\<lambda>k. g (Suc k)) [0..<m]"
proof -
  have "[0..<Suc m] = 0 # map Suc [0..<m]" by (simp add: upt_conv_Cons map_Suc_upt)
  then show ?thesis by (simp add: comp_def)
qed

lemma fold_make_step_ids:
  "fold (make_step clk intent) ts (ids, sl, st) = (ids', sl', st') \<Longrightarrow>
   map step_id sl'
     = map step_id sl
       @ map (\<lambda>k. step_id_text (clk (clockReads st + k)) (stepCounter st + 1 + k)) [0..<length ts]
   \<and> clockReads st' = clockReads st + length ts
   \<and> stepCounter st' = stepCounter st + length ts"
proof (induction ts arbitrary: ids sl st)
  case Nil
  then show ?case by simp
next
  case (Cons a ts)
  let ?sid = "step_id_text (clk (clockReads st)) (stepCounter st + 1)"
  let ?st1 = "st\<lparr>stepCounter := stepCounter st + 1, clockReads := clockReads st + 1\<rparr>"
  obtain s1 where s1: "make_step clk intent a (ids, sl, st) = (ids @ [?sid], sl @ [s1], ?st1)"
    and s1_id: "step_id s1 = ?sid"
    by (simp add: make_step_def generateStepId_result)
  from Cons.prems have run: "fold (make_step clk intent) ts (ids @ [?sid], sl @ [s1], ?st1)
                               = (ids', sl', st')"
    by (simp add: s1)
  note ih = Cons.IH [OF run]
  have "map step_id sl'
          = map step_id sl
            @ ?sid # map (\<lambda>k. step_id_text (clk (clockReads st + Suc k))
                                  (stepCounter st + 1 + Suc k)) [0..<length ts]"
    using ih by (simp add: s1_id)
  also have "?sid # map (\<lambda>k. step_id_text (clk (clockReads st + Suc k))
                                  (stepCounter st + 1 + Suc k)) [0..<length ts]
             = map (\<lambda>k. step_id_text (clk (clockReads st + k)) (stepCounter st + 1 + k))
                 [0..<Suc (length ts)]"
    by (simp only: upt_Suc_shift) simp
  finally show ?case using ih by simp
qed

lemma buildSteps_ids:
  "step_ids (fst (buildSteps clk intent template st))
     = map (\<lambda>k. step_id_text (clk (clockReads st + k)) (stepCounter st + 1 + k))
         [0..<length (template_steps template)]"
  "clockReads (snd (buildSteps clk intent template st))
     = clockReads st + length (template_steps template)"
  "stepCounter (snd (buildSteps clk intent template st))
     = stepCounter st + length (template_steps template)"
proof -
  obtain ids sl0 st0 where run:
    "fold (make_step clk intent) (template_steps template) ([], [], st) = (ids, sl0, st0)"
    by (cases "fold (make_step clk intent) (template_steps template) ([], [], st)")
  note f = fold_make_step_ids [OF run]
  have b: "buildSteps clk intent template st = (fill_dependencies template ids sl0, st0)"
    by (simp add: buildSteps_def run)
  show "step_ids (fst (buildSteps clk intent template st))
     = map (\<lambda>k. step_id_text (clk (clockReads st + k)) (stepCounter st + 1 + k))
         [0..<length (template_steps template)]"
    using f by (simp add: b step_ids_def)
  show "clockReads (snd (buildSteps clk intent template st))
     = clockReads st + length (template_steps template)"
    using f by (simp add: b)
  show "stepCounter (snd (buildSteps clk intent template st))
     = stepCounter st + length (template_steps template)"
    using f by (simp add: b)
qed

lemma createPlan_counters:
  "stepCounter (snd (createPlan clk intent st))
     = stepCounter st + length (template_steps (getPlanTemplate (taskType intent)))"
  "clockReads (snd (createPlan clk intent st))
     = clockReads st + length (template_steps (getPlanTemplate (taskType intent))) + 2"
proof -
  have keep: "stepCounter (fold (\<lambda>step s. s\<lparr>stepIndex := map_set (step_id step) p (stepIndex s)\<rparr>)
                 sl s0) = stepCounter s0
            \<and> clockReads (fold (\<lambda>step s. s\<lparr>stepIndex := map_set (step_id step) p (stepIndex s)\<rparr>)
                 sl s0) = clockReads s0" for sl p and s0 :: "'a orchestrator"
    by (induction sl arbitrary: s0) simp_all
  show "stepCounter (snd (createPlan clk intent st))
     = stepCounter st + length (template_steps (getPlanTemplate (taskType intent)))"
    by (simp add: createPlan_def Let_def split_beta keep generatePlanId_def date_now_def
          buildSteps_ids)
  show "clockReads (snd (createPlan clk intent st))
     = clockReads st + length (template_steps (getPlanTemplate (taskType intent))) + 2"
    by (simp add: createPlan_def Let_def split_beta keep generatePlanId_def date_now_def
          buildSteps_ids)
qed

lemma generatePlanId_counters:
  "stepCounter (snd (generatePlanId clk st)) = stepCounter st"
  "clockReads (snd (generatePlanId clk st)) = clockReads st + 1"
  by (simp_all add: generatePlanId_def date_now_def)

lemma executePlan_counters:
  "stepCounter (fst (executePlan planId ex st)) = stepCounter st"
  "clockReads (fst (executePlan planId ex st)) = clockReads st"
  by (simp_all add: executePlan_def Let_def split: option.splits sum.splits)

text \<open>What \<open>createPlan\<close> adds to the log.\<close>

lemma createPlan_issues:
  "map (\<lambda>(k, sid). \<lparr>issue_id = sid, reading = clockReads st + k, resets_before = resets\<rparr>)
       (enumerate 0 (step_ids (plan_steps (fst (createPlan clk intent st)))))
     = fresh_issues clk st resets (length (template_steps (getPlanTemplate (taskType intent))))"
  by (rule nth_equalityI)
     (simp_all add: fresh_issues_def createPlan_steps buildSteps_ids nth_enumerate_eq)

subsection \<open>The invariant of the log\<close>

lemma fresh_issues_member:
  "e \<in> set (fresh_issues clk st resets n) \<longleftrightarrow>
     (\<exists>k < n. e = \<lparr>issue_id = step_id_text (clk (clockReads st + k)) (stepCounter st + 1 + k),
                    reading = clockReads st + k, resets_before = resets\<rparr>)"
  by (auto simp: fresh_issues_def)

lemma fresh_issues_apart: "sorted_wrt (apart clk) (fresh_issues clk st resets n)"
proof -
  let ?f = "\<lambda>k. \<lparr>issue_id = step_id_text (clk (clockReads st + k)) (stepCounter st + 1 + k),
                  reading = clockReads st + k, resets_before = resets\<rparr>"
  have "apart clk (?f a) (?f b)" if "a < b" for a b
  proof -
    have "issue_id (?f a) \<noteq> issue_id (?f b)"
    proof
      assume "issue_id (?f a) = issue_id (?f b)"
      then have "stepCounter st + 1 + a = stepCounter st + 1 + b"
        by (auto dest: step_id_text_counter)
      with that show False by simp
    qed
    with that show ?thesis by (simp add: apart_def)
  qed
  then have "sorted_wrt (\<lambda>a b. apart clk (?f a) (?f b)) [0..<n]"
    using sorted_wrt_mono_rel [of "[0..<n]" "(<)" "\<lambda>a b. apart clk (?f a) (?f b)"]
    by simp
  then show ?thesis by (simp add: fresh_issues_def sorted_wrt_map)
qed

lemma issued_inv_extend:
  assumes inv: "issued_inv clk (st, issued, resets)"
      and reads: "clockReads st + n \<le> clockReads st'"
      and cnt: "stepCounter st' = stepCounter st + n"
  shows "issued_inv clk (st', issued @ fresh_issues clk st resets n, resets)"
proof -
  from inv have old: "\<And>e. e \<in> set issued \<Longrightarrow>
        reading e < clockReads st \<and> resets_before e \<le> resets
      \<and> (\<exists>c. issue_id e = step_id_text (clk (reading e)) c
             \<and> (resets_before e = resets \<longrightarrow> c \<le> stepCounter st))"
    and srt: "sorted_wrt (apart clk) issued"
    by (simp_all add: issued_inv_def)
  have entries: "reading e < clockReads st' \<and> resets_before e \<le> resets
      \<and> (\<exists>c. issue_id e = step_id_text (clk (reading e)) c
             \<and> (resets_before e = resets \<longrightarrow> c \<le> stepCounter st'))"
    if "e \<in> set (issued @ fresh_issues clk st resets n)" for e
  proof (cases "e \<in> set issued")
    case True
    from old [OF True] obtain c where
      "reading e < clockReads st" "resets_before e \<le> resets"
      "issue_id e = step_id_text (clk (reading e)) c"
      "resets_before e = resets \<longrightarrow> c \<le> stepCounter st" by blast
    with reads cnt have "reading e < clockReads st' \<and> resets_before e \<le> resets
      \<and> issue_id e = step_id_text (clk (reading e)) c
      \<and> (resets_before e = resets \<longrightarrow> c \<le> stepCounter st')" by auto
    then show ?thesis by blast
  next
    case False
    with that have "e \<in> set (fresh_issues clk st resets n)" by simp
    then obtain k where k: "k < n"
      and e: "e = \<lparr>issue_id = step_id_text (clk (clockReads st + k)) (stepCounter st + 1 + k),
                   reading = clockReads st + k, resets_before = resets\<rparr>"
      by (auto simp: fresh_issues_member)
    have "reading e < clockReads st' \<and> resets_before e \<le> resets
      \<and> issue_id e = step_id_text (clk (reading e)) (stepCounter st + 1 + k)
      \<and> (resets_before e = resets \<longrightarrow> stepCounter st + 1 + k \<le> stepCounter st')"
      using k reads cnt by (simp add: e)
    then show ?thesis by blast
  qed
  have cross: "apart clk x y"
    if x: "x \<in> set issued" and y: "y \<in> set (fresh_issues clk st resets n)" for x y
  proof -
    from old [OF x] obtain c where xr: "reading x < clockReads st"
      and xe: "resets_before x \<le> resets"
      and xi: "issue_id x = step_id_text (clk (reading x)) c"
      and xc: "resets_before x = resets \<longrightarrow> c \<le> stepCounter st" by blast
    from y obtain k where k: "k < n"
      and ye: "y = \<lparr>issue_id = step_id_text (clk (clockReads st + k)) (stepCounter st + 1 + k),
                   reading = clockReads st + k, resets_before = resets\<rparr>"
      by (auto simp: fresh_issues_member)
    have "resets_before x < resets \<and> clk (reading x) = clk (clockReads st + k)"
      if same: "issue_id x = issue_id y"
    proof -
      from same have eq: "step_id_text (clk (reading x)) c
               = step_id_text (clk (clockReads st + k)) (stepCounter st + 1 + k)"
        by (simp add: xi ye)
      from eq have "c = stepCounter st + 1 + k" by (rule step_id_text_counter)
      with xc have "resets_before x \<noteq> resets" by auto
      with xe have "resets_before x < resets" by simp
      moreover from eq have "clk (reading x) = clk (clockReads st + k)"
        by (rule step_id_text_time)
      ultimately show ?thesis by simp
    qed
    with xr show ?thesis by (simp add: apart_def ye)
  qed
  have "sorted_wrt (apart clk) (issued @ fresh_issues clk st resets n)"
    using srt fresh_issues_apart [of clk st resets n] cross by (simp add: sorted_wrt_append)
  with entries show ?thesis by (simp add: issued_inv_def)
qed

lemma issued_inv_reset:
  assumes inv: "issued_inv clk (st, issued, resets)"
  shows "issued_inv clk (clearAllPlans st, issued, resets + 1)"
proof -
  from inv have old: "\<And>e. e \<in> set issued \<Longrightarrow>
        reading e < clockReads st \<and> resets_before e \<le> resets
      \<and> (\<exists>c. issue_id e = step_id_text (clk (reading e)) c)"
    and srt: "sorted_wrt (apart clk) issued"
    by (auto simp: issued_inv_def)
  have "reading e < clockReads (clearAllPlans st) \<and> resets_before e \<le> resets + 1
      \<and> (\<exists>c. issue_id e = step_id_text (clk (reading e)) c
             \<and> (resets_before e = resets + 1 \<longrightarrow> c \<le> stepCounter (clearAllPlans st)))"
    if "e \<in> set issued" for e
  proof -
    from old [OF that] obtain c where "reading e < clockReads st" "resets_before e \<le> resets"
      "issue_id e = step_id_text (clk (reading e)) c" by blast
    then have "reading e < clockReads (clearAllPlans st) \<and> resets_before e \<le> resets + 1
      \<and> issue_id e = step_id_text (clk (reading e)) c
      \<and> (resets_before e = resets + 1 \<longrightarrow> c \<le> stepCounter (clearAllPlans st))"
      by (simp add: clearAllPlans_def)
    then show ?thesis by blast
  qed
  with srt show ?thesis by (simp add: issued_inv_def)
qed

lemma issued_inv_call:
  assumes inv: "issued_inv clk p"
  shows "issued_inv clk (run_call clk call p)"
proof -
  obtain st issued resets where p: "p = (st, issued, resets)" by (cases p)
  note inv' = inv [unfolded p]
  show ?thesis
  proof (cases call)
    case call_generateStepId
    let ?st' = "st\<lparr>stepCounter := stepCounter st + 1, clockReads := clockReads st + 1\<rparr>"
    have "issued_inv clk (?st', issued @ fresh_issues clk st resets 1, resets)"
      by (rule issued_inv_extend [OF inv']) simp_all
    then show ?thesis
      by (simp add: p call_generateStepId generateStepId_result fresh_issues_def)
  next
    case call_generatePlanId
    have "issued_inv clk (snd (generatePlanId clk st), issued @ fresh_issues clk st resets 0,
                          resets)"
      by (rule issued_inv_extend [OF inv']) (simp_all add: generatePlanId_counters)
    then show ?thesis by (simp add: p call_generatePlanId fresh_issues_def)
  next
    case (call_createPlan intent)
    let ?n = "length (template_steps (getPlanTemplate (taskType intent)))"
    have "issued_inv clk (snd (createPlan clk intent st),
                          issued @ fresh_issues clk st resets ?n, resets)"
      by (rule issued_inv_extend [OF inv']) (simp_all add: createPlan_counters)
    then show ?thesis
      by (simp add: p call_createPlan split_beta createPlan_issues)
  next
    case (call_executePlan planId ex)
    have "issued_inv clk (fst (executePlan planId ex st), issued @ fresh_issues clk st resets 0,
                          resets)"
      by (rule issued_inv_extend [OF inv']) (simp_all add: executePlan_counters)
    then show ?thesis by (simp add: p call_executePlan fresh_issues_def)
  next
    case call_clearAllPlans
    from issued_inv_reset [OF inv'] show ?thesis by (simp add: p call_clearAllPlans)
  qed
qed

lemma issued_inv_calls: "issued_inv clk p \<Longrightarrow> issued_inv clk (fold (run_call clk) calls p)"
proof (induction calls arbitrary: p)
  case Nil
  then show ?case by simp
next
  case (Cons call calls)
  from Cons.prems have "issued_inv clk (run_call clk call p)" by (rule issued_inv_call)
  with Cons.IH show ?case by simp
qed

lemma resets_unchanged:
  "call_clearAllPlans \<notin> set calls \<Longrightarrow>
   snd (snd (fold (run_call clk) calls p)) = snd (snd p)"
proof (induction calls arbitrary: p)
  case Nil
  then show ?case by simp
next
  case (Cons call calls)
  obtain st issued resets where p: "p = (st, issued, resets)" by (cases p)
  from Cons.prems have nc: "call \<noteq> call_clearAllPlans" by auto
  then have "snd (snd (run_call clk call p)) = snd (snd p)"
    by (cases call) (simp_all add: p split_beta)
  with Cons show ?case by simp
qed

text \<open>What the invariant gives for the log of a sequence of calls.\<close>

lemma issue_log_entries:
  assumes "i < length (issue_log clk calls st)"
  shows "\<exists>c. issue_id (issue_log clk calls st ! i)
               = step_id_text (clk (reading (issue_log clk calls st ! i))) c"
    and "call_clearAllPlans \<notin> set calls \<Longrightarrow> resets_before (issue_log clk calls st ! i) = 0"
proof -
  let ?p = "fold (run_call clk) calls (st, [], 0)"
  have "issued_inv clk (st, [], 0)" by (simp add: issued_inv_def)
  then have inv: "issued_inv clk ?p" by (rule issued_inv_calls)
  from assms have m: "issue_log clk calls st ! i \<in> set (fst (snd ?p))"
    by (simp add: issue_log_def)
  with inv show "\<exists>c. issue_id (issue_log clk calls st ! i)
               = step_id_text (clk (reading (issue_log clk calls st ! i))) c"
    unfolding issued_inv_def by blast
  show "resets_before (issue_log clk calls st ! i) = 0" if "call_clearAllPlans \<notin> set calls"
  proof -
    from resets_unchanged [OF that, of clk "(st, [], 0)"] have "snd (snd ?p) = 0" by simp
    moreover from inv m have "resets_before (issue_log clk calls st ! i) \<le> snd (snd ?p)"
      unfolding issued_inv_def by blast
    ultimately show ?thesis by simp
  qed
qed

lemma issue_log_apart:
  assumes "i < j" and "j < length (issue_log clk calls st)"
  shows "apart clk (issue_log clk calls st ! i) (issue_log clk calls st ! j)"
proof -
  have "issued_inv clk (st, [], 0)" by (simp add: issued_inv_def)
  then have "issued_inv clk (fold (run_call clk) calls (st, [], 0))" by (rule issued_inv_calls)
  then have "sorted_wrt (apart clk) (issue_log clk calls st)"
    by (simp add: issued_inv_def issue_log_def)
  with assms show ?thesis by (simp add: sorted_wrt_iff_nth_less)
qed

section \<open>Claim about step ids\<close>

text \<open>
  C9 (as amended). Within every plan returned by \<open>createPlan\<close> the step ids are pairwise
  distinct. Every step id issued in a sequence of calls, by \<open>generateStepId\<close> called
  directly or by \<open>createPlan\<close>, is the text made of the clock value of its reading and of
  a counter value; and when two issued ids are equal, a call of \<open>clearAllPlans\<close> lies
  between the two issues and the clock gave the same value at both. So the issued ids
  are pairwise distinct when \<open>clearAllPlans\<close> is not called, whatever the clock returns,
  and they are pairwise distinct when the clock never returns a value twice, whatever
  is called.
\<close>

theorem step_ids_unique:
  "distinct (step_ids (plan_steps (fst (createPlan clk intent st))))
   \<and> (\<forall>i < length (issue_log clk calls st).
        \<exists>c. issue_id (issue_log clk calls st ! i)
               = step_id_text (clk (reading (issue_log clk calls st ! i))) c)
   \<and> (\<forall>i j. i < j \<and> j < length (issue_log clk calls st)
            \<and> issue_id (issue_log clk calls st ! i) = issue_id (issue_log clk calls st ! j)
        \<longrightarrow> resets_before (issue_log clk calls st ! i) < resets_before (issue_log clk calls st ! j)
          \<and> clk (reading (issue_log clk calls st ! i))
              = clk (reading (issue_log clk calls st ! j)))
   \<and> (call_clearAllPlans \<notin> set calls \<longrightarrow> distinct (issued_step_ids clk calls st))
   \<and> (inj clk \<longrightarrow> distinct (issued_step_ids clk calls st))"
proof -
  let ?log = "issue_log clk calls st"
  let ?b = "buildSteps clk intent (getPlanTemplate (taskType intent)) st"
  have "distinct (step_ids (fst ?b))"
    using buildSteps_result [of clk intent _ st "fst ?b" "snd ?b"] by simp
  then have plan: "distinct (step_ids (plan_steps (fst (createPlan clk intent st))))"
    by (simp add: createPlan_steps)
  have made: "\<forall>i < length ?log.
        \<exists>c. issue_id (?log ! i) = step_id_text (clk (reading (?log ! i))) c"
    using issue_log_entries(1) [of _ clk calls st] by blast
  have pair: "resets_before (?log ! i) < resets_before (?log ! j)
          \<and> clk (reading (?log ! i)) = clk (reading (?log ! j))"
    if "i < j" "j < length ?log" "issue_id (?log ! i) = issue_id (?log ! j)" for i j
    using issue_log_apart [OF that(1,2)] that(3) by (simp add: apart_def)
  have order: "reading (?log ! i) < reading (?log ! j)" if "i < j" "j < length ?log" for i j
    using issue_log_apart [OF that] by (simp add: apart_def)
  have dist: "distinct (issued_step_ids clk calls st)"
    if differ: "\<And>i j. i < j \<Longrightarrow> j < length ?log \<Longrightarrow> issue_id (?log ! i) \<noteq> issue_id (?log ! j)"
  proof -
    have "issue_id (?log ! i) \<noteq> issue_id (?log ! j)"
      if "i < length ?log" "j < length ?log" "i \<noteq> j" for i j
    proof (cases "i < j")
      case True
      with that show ?thesis by (intro differ)
    next
      case False
      with that have "j < i" by simp
      with that have "issue_id (?log ! j) \<noteq> issue_id (?log ! i)" by (intro differ)
      then show ?thesis by simp
    qed
    then show ?thesis by (simp add: issued_step_ids_def distinct_conv_nth)
  qed
  have noreset: "distinct (issued_step_ids clk calls st)" if nc: "call_clearAllPlans \<notin> set calls"
  proof (rule dist)
    fix i j assume ij: "i < j" "j < length ?log"
    show "issue_id (?log ! i) \<noteq> issue_id (?log ! j)"
    proof
      assume "issue_id (?log ! i) = issue_id (?log ! j)"
      with pair ij have "resets_before (?log ! i) < resets_before (?log ! j)" by blast
      moreover have "resets_before (?log ! j) = 0"
        using issue_log_entries(2) [OF ij(2) nc] .
      ultimately show False by simp
    qed
  qed
  have ticks: "distinct (issued_step_ids clk calls st)" if inj: "inj clk"
  proof (rule dist)
    fix i j assume ij: "i < j" "j < length ?log"
    show "issue_id (?log ! i) \<noteq> issue_id (?log ! j)"
    proof
      assume "issue_id (?log ! i) = issue_id (?log ! j)"
      with pair ij have "clk (reading (?log ! i)) = clk (reading (?log ! j))" by blast
      with inj have "reading (?log ! i) = reading (?log ! j)" by (simp add: inj_eq)
      with order [OF ij] show False by simp
    qed
  qed
  from plan made pair noreset ticks show ?thesis by blast
qed

theorem step_ids_unique_witness:
  "issue_log same_millisecond
     [call_generateStepId, call_clearAllPlans, call_generateStepId] empty_orchestrator
     = [\<lparr>issue_id = ''step-1000-1'', reading = 0, resets_before = 0\<rparr>,
        \<lparr>issue_id = ''step-1000-1'', reading = 1, resets_before = 1\<rparr>]
   \<and> resets_before (issue_log same_millisecond
         [call_generateStepId, call_clearAllPlans, call_generateStepId] empty_orchestrator ! 0)
       < resets_before (issue_log same_millisecond
         [call_generateStepId, call_clearAllPlans, call_generateStepId] empty_orchestrator ! 1)
   \<and> call_clearAllPlans
       \<notin> set [call_generateStepId, call_createPlan (test_intent ''content_publish''),
              call_generateStepId]
   \<and> issued_step_ids same_millisecond
       [call_generateStepId, call_createPlan (test_intent ''content_publish''),
        call_generateStepId] empty_orchestrator
       = [''step-1000-1'', ''step-1000-2'', ''step-1000-3'', ''step-1000-4'']
   \<and> distinct (issued_step_ids same_millisecond
       [call_generateStepId, call_createPlan (test_intent ''content_publish''),
        call_generateStepId] empty_orchestrator)
   \<and> inj ticking
   \<and> issued_step_ids ticking
       [call_generateStepId, call_clearAllPlans, call_generateStepId] empty_orchestrator
       = [''step-1000-1'', ''step-1001-1'']
   \<and> distinct (issued_step_ids ticking
       [call_generateStepId, call_clearAllPlans, call_generateStepId] empty_orchestrator)"
proof -
  let ?reset = "[call_generateStepId, call_clearAllPlans, call_generateStepId]
                  :: unit api_call list"
  let ?calls = "[call_generateStepId, call_createPlan (test_intent ''content_publish''),
                 call_generateStepId] :: unit api_call list"
  let ?intent = "test_intent ''content_publish''"
  have v1: "issue_log same_millisecond ?reset empty_orchestrator
     = [\<lparr>issue_id = ''step-1000-1'', reading = 0, resets_before = 0\<rparr>,
        \<lparr>issue_id = ''step-1000-1'', reading = 1, resets_before = 1\<rparr>]"
    by (simp add: issue_log_def generateStepId_result clearAllPlans_def
          empty_orchestrator_def same_millisecond_def step_id_text_def show_int_def
          show_nat.simps digit_char_def)
  have h1: "(0::nat) < 1 \<and> 1 < length (issue_log same_millisecond ?reset empty_orchestrator)
            \<and> issue_id (issue_log same_millisecond ?reset empty_orchestrator ! 0)
                = issue_id (issue_log same_millisecond ?reset empty_orchestrator ! 1)"
    by (simp add: v1)
  from step_ids_unique [of same_millisecond ?intent empty_orchestrator ?reset]
  have "\<forall>i j. i < j \<and> j < length (issue_log same_millisecond ?reset empty_orchestrator)
            \<and> issue_id (issue_log same_millisecond ?reset empty_orchestrator ! i)
                = issue_id (issue_log same_millisecond ?reset empty_orchestrator ! j)
        \<longrightarrow> resets_before (issue_log same_millisecond ?reset empty_orchestrator ! i)
              < resets_before (issue_log same_millisecond ?reset empty_orchestrator ! j)
          \<and> same_millisecond (reading (issue_log same_millisecond ?reset empty_orchestrator ! i))
              = same_millisecond
                  (reading (issue_log same_millisecond ?reset empty_orchestrator ! j))"
    by (elim conjE)
  from this [rule_format, OF h1]
  have w1: "resets_before (issue_log same_millisecond ?reset empty_orchestrator ! 0)
            < resets_before (issue_log same_millisecond ?reset empty_orchestrator ! 1)"
    by (rule conjunct1)
  have n: "call_clearAllPlans \<notin> set ?calls" by simp
  have v2: "issued_step_ids same_millisecond ?calls empty_orchestrator
             = [''step-1000-1'', ''step-1000-2'', ''step-1000-3'', ''step-1000-4'']"
    by (simp add: issued_step_ids_def issue_log_def generateStepId_result createPlan_def
          buildSteps_def getPlanTemplate_def make_step_def fill_dependencies_def
          generatePlanId_def date_now_def step_ids_def test_intent_def empty_orchestrator_def
          Let_def map_get_def map_set_def id_at_def
          same_millisecond_def step_id_text_def show_int_def show_nat.simps digit_char_def)
  from step_ids_unique [of same_millisecond ?intent empty_orchestrator ?calls]
  have "call_clearAllPlans \<notin> set ?calls
          \<longrightarrow> distinct (issued_step_ids same_millisecond ?calls empty_orchestrator)"
    by (elim conjE)
  with n have w2: "distinct (issued_step_ids same_millisecond ?calls empty_orchestrator)"
    by (rule rev_mp)
  have i: "inj ticking" by (simp add: inj_def ticking_def)
  have v3: "issued_step_ids ticking ?reset empty_orchestrator
              = [''step-1000-1'', ''step-1001-1'']"
    by (simp add: issued_step_ids_def issue_log_def generateStepId_result clearAllPlans_def
          empty_orchestrator_def ticking_def step_id_text_def show_int_def
          show_nat.simps digit_char_def)
  from step_ids_unique [of ticking ?intent empty_orchestrator ?reset]
  have "inj ticking \<longrightarrow> distinct (issued_step_ids ticking ?reset empty_orchestrator)"
    by (elim conjE)
  with i have w3: "distinct (issued_step_ids ticking ?reset empty_orchestrator)"
    by (rule rev_mp)
  from v1 w1 n v2 w2 i v3 w3 show ?thesis by (intro conjI)
qed

text \<open>
  C9 as stated fails across a reset: \<open>clearAllPlans\<close> sets the counter back to 0, so a
  \<open>generateStepId\<close> after it, in the same millisecond as one before it, returns the
  same id.
\<close>

theorem step_ids_reset_counterexample:
  "issued_step_ids same_millisecond
     [call_generateStepId, call_clearAllPlans, call_generateStepId] empty_orchestrator
     = [''step-1000-1'', ''step-1000-1'']
   \<and> \<not> distinct (issued_step_ids same_millisecond
          [call_generateStepId, call_clearAllPlans, call_generateStepId] empty_orchestrator)"
proof -
  have v: "issued_step_ids same_millisecond
     [call_generateStepId, call_clearAllPlans, call_generateStepId] empty_orchestrator
     = [''step-1000-1'', ''step-1000-1'']"
    by (simp add: issued_step_ids_def issue_log_def generateStepId_result clearAllPlans_def
          empty_orchestrator_def same_millisecond_def step_id_text_def show_int_def
          show_nat.simps digit_char_def)
  then show ?thesis by simp
qed

end
